theory Spec2Isabelle
  imports Main
begin

section \<open>Graph view\<close>

text \<open>
  The algorithms of \<^verbatim>\<open>dominance.hpp\<close> are templates over a graph type \<open>G\<close> of which
  they use \<^verbatim>\<open>vertices(g)\<close>, \<^verbatim>\<open>in_edges(n,g)\<close>, \<^verbatim>\<open>source(e,g)\<close>, \<^verbatim>\<open>g.entry()\<close>,
  \<^verbatim>\<open>g.has_exit()\<close> and the null vertex. A graph is represented by the list of its
  vertices (in iteration order), the list of its edges (source, target), its entry and
  its optional exit. A value of node type is \<open>'a option\<close>: \<open>None\<close> is the null vertex
  \<^verbatim>\<open>graph_traits<G>::null_vertex()\<close>, which is therefore distinct from every real node.
\<close>

record 'a graph =
  vertices :: "'a list"
  edges :: "('a \<times> 'a) list"
  entry :: 'a
  exit :: "'a option"

type_synonym 'a node_t = "'a option"

definition source :: "'a \<times> 'a \<Rightarrow> 'a" where
  "source e = fst e"

definition target :: "'a \<times> 'a \<Rightarrow> 'a" where
  "target e = snd e"

definition in_edges :: "'a \<Rightarrow> 'a graph \<Rightarrow> ('a \<times> 'a) list" where
  "in_edges n g = filter (\<lambda>e. target e = n) (edges g)"

definition has_exit :: "'a graph \<Rightarrow> bool" where
  "has_exit g \<longleftrightarrow> exit g \<noteq> None"

text \<open>
  Modelled from the spec: \<^verbatim>\<open>cfg::cfg_rev<G>\<close> is not under src/. The spec describes the
  reversed view as a graph with every edge's source and target swapped, the same node
  identities, and the entry replaced by the original exit node. It is only built when
  the graph has an exit; the entry is left as it is otherwise.
\<close>

definition cfg_rev :: "'a graph \<Rightarrow> 'a graph" where
  "cfg_rev g =
     \<lparr> vertices = vertices g,
       edges = map (\<lambda>e. (snd e, fst e)) (edges g),
       entry = (case exit g of Some x \<Rightarrow> x | None \<Rightarrow> entry g),
       exit = Some (entry g) \<rparr>"

section \<open>Dominance\<close>

text \<open>
  The notions of the header comment. A path avoiding \<open>u\<close> from the entry to \<open>v\<close> exists
  when the entry is not \<open>u\<close> and \<open>v\<close> is the entry or is reached from it by edges none of
  which leads into \<open>u\<close>. A node \<open>u\<close> dominates \<open>v\<close> when there is no such path, that is,
  when all paths from the entry to \<open>v\<close> pass through \<open>u\<close>.
\<close>

definition reachable :: "'a graph \<Rightarrow> 'a \<Rightarrow> 'a \<Rightarrow> bool" where
  "reachable g entry_node v \<longleftrightarrow> v = entry_node \<or> (entry_node, v) \<in> (set (edges g))\<^sup>+"

definition edges_avoiding :: "'a graph \<Rightarrow> 'a \<Rightarrow> ('a \<times> 'a) list" where
  "edges_avoiding g u = filter (\<lambda>e. target e \<noteq> u) (edges g)"

definition dominates :: "'a graph \<Rightarrow> 'a \<Rightarrow> 'a \<Rightarrow> 'a \<Rightarrow> bool" where
  "dominates g entry_node u v \<longleftrightarrow>
     \<not> (entry_node \<noteq> u \<and> (v = entry_node \<or> (entry_node, v) \<in> (set (edges_avoiding g u))\<^sup>+))"

definition strictly_dominates :: "'a graph \<Rightarrow> 'a \<Rightarrow> 'a \<Rightarrow> 'a \<Rightarrow> bool" where
  "strictly_dominates g entry_node u v \<longleftrightarrow> dominates g entry_node u v \<and> u \<noteq> v"

text \<open>
  The same notion over explicit paths: a path is a non-empty list of nodes in which
  each node has an edge to the next.
\<close>

fun is_path :: "'a graph \<Rightarrow> 'a list \<Rightarrow> bool" where
  "is_path g [] \<longleftrightarrow> False"
| "is_path g [x] \<longleftrightarrow> True"
| "is_path g (x # y # xs) \<longleftrightarrow> (x, y) \<in> set (edges g) \<and> is_path g (y # xs)"

definition path_from_to :: "'a graph \<Rightarrow> 'a \<Rightarrow> 'a list \<Rightarrow> 'a \<Rightarrow> bool" where
  "path_from_to g a xs b \<longleftrightarrow> is_path g xs \<and> hd xs = a \<and> last xs = b"

text \<open>
  \<open>u\<close> is the immediate dominator of \<open>v\<close> if it strictly dominates \<open>v\<close> but does not
  strictly dominate any other node that strictly dominates \<open>v\<close>.
\<close>

definition immediate_dominator :: "'a graph \<Rightarrow> 'a \<Rightarrow> 'a \<Rightarrow> 'a \<Rightarrow> bool" where
  "immediate_dominator g entry_node u v \<longleftrightarrow>
     strictly_dominates g entry_node u v \<and>
     (\<forall>w \<in> set (vertices g).
        w \<noteq> u \<and> strictly_dominates g entry_node w v \<longrightarrow> \<not> strictly_dominates g entry_node u w)"

text \<open>
  Modelled from the spec: \<^verbatim>\<open>lengauer_tarjan_dominator_tree\<close> belongs to the Boost Graph
  Library and is not under src/. The spec gives its result: for every node reachable
  from the entry except the entry, the immediate dominator; for the entry, none; for
  nodes unreachable from the entry, none. The result is the \<^verbatim>\<open>dom_tree_pred_map\<close>, read
  at a vertex.
\<close>

definition lengauer_tarjan_dominator_tree :: "'a graph \<Rightarrow> 'a \<Rightarrow> 'a \<Rightarrow> 'a node_t" where
  "lengauer_tarjan_dominator_tree g entry_node v =
     (if v = entry_node \<or> \<not> reachable g entry_node v then None
      else find (\<lambda>u. immediate_dominator g entry_node u v) (vertices g))"

section \<open>Diagnostics\<close>

text \<open>
  \<^verbatim>\<open>CRAB_LOG(tag, code)\<close> runs \<^verbatim>\<open>code\<close> when logging is enabled for \<^verbatim>\<open>tag\<close>; the macro
  is not under src/, so the predicate that says which tags are enabled is a parameter
  \<open>crab_log\<close> of every operation. What is written to \<^verbatim>\<open>crab::outs()\<close> is kept as a list
  of messages, one constructor per message of the source.
\<close>

datatype 'a diag =
    Banner string
  | ImmediateDominator 'a 'a
  | NotDominated 'a
  | FrontierDump "'a \<Rightarrow> 'a list option"

definition emit :: "(string \<Rightarrow> bool) \<Rightarrow> string \<Rightarrow> 'a diag \<Rightarrow> 'a diag list \<Rightarrow> 'a diag list" where
  "emit crab_log tag msg out = (if crab_log tag then out @ [msg] else out)"

section \<open>Dominator tree\<close>

text \<open>
  \<^verbatim>\<open>idom.insert(value_type(k, v))\<close> on an associative container with unique keys
  leaves an existing entry as it is.
\<close>

definition map_insert :: "('k \<rightharpoonup> 'v) \<Rightarrow> 'k \<Rightarrow> 'v \<Rightarrow> ('k \<rightharpoonup> 'v)" where
  "map_insert m k v = (case m k of None \<Rightarrow> m(k \<mapsto> v) | Some _ \<Rightarrow> m)"

text \<open>
  Lines 74 to 89: for every vertex, the entry of \<^verbatim>\<open>dom_tree_pred_map\<close> is copied into
  \<open>idom\<close>, and one message is logged under the tag \<^verbatim>\<open>dominator\<close>.
\<close>

fun dominator_tree_loop ::
  "('a \<Rightarrow> 'a node_t) \<Rightarrow> (string \<Rightarrow> bool) \<Rightarrow> 'a list \<Rightarrow>
   ('a \<rightharpoonup> 'a node_t) \<times> 'a diag list \<Rightarrow> ('a \<rightharpoonup> 'a node_t) \<times> 'a diag list" where
  "dominator_tree_loop dom_tree_pred_map crab_log [] st = st"
| "dominator_tree_loop dom_tree_pred_map crab_log (v # vs) (idom, out) =
     (case dom_tree_pred_map v of
        Some u \<Rightarrow>
          dominator_tree_loop dom_tree_pred_map crab_log vs
            (map_insert idom v (Some u), emit crab_log ''dominator'' (ImmediateDominator u v) out)
      | None \<Rightarrow>
          dominator_tree_loop dom_tree_pred_map crab_log vs
            (map_insert idom v None, emit crab_log ''dominator'' (NotDominated v) out))"

text \<open>
  \<^verbatim>\<open>dominator_tree(g, entry, idom)\<close>. The call of the Boost Graph Library's
  \<^verbatim>\<open>lengauer_tarjan_dominator_tree\<close> is the parameter \<open>lt\<close>: \<open>lt g entry\<close> is the
  \<^verbatim>\<open>dom_tree_pred_map\<close> the library leaves behind (the vectors are initialised with the
  null vertex in lines 62 to 65).
\<close>

definition dominator_tree ::
  "('a graph \<Rightarrow> 'a \<Rightarrow> 'a \<Rightarrow> 'a node_t) \<Rightarrow> (string \<Rightarrow> bool) \<Rightarrow> 'a graph \<Rightarrow> 'a \<Rightarrow>
   ('a \<rightharpoonup> 'a node_t) \<times> 'a diag list \<Rightarrow> ('a \<rightharpoonup> 'a node_t) \<times> 'a diag list" where
  "dominator_tree lt crab_log g entry_node st =
     dominator_tree_loop (lt g entry_node) crab_log (vertices g) st"

section \<open>Dominance frontiers\<close>

text \<open>
  \<^verbatim>\<open>idom[x]\<close> on the \<^verbatim>\<open>boost::unordered_map<node_t, node_t>\<close>: the mapped node when \<open>x\<close>
  is a key; a value-initialised node, the null vertex, when it is not (the entry that
  \<^verbatim>\<open>operator[]\<close> then adds holds the same value, so later reads agree).
  \<^verbatim>\<open>df[x]\<close> on the vector map: the stored vector, or a new empty one.
\<close>

definition idom_at :: "('a \<rightharpoonup> 'a node_t) \<Rightarrow> 'a \<Rightarrow> 'a node_t" where
  "idom_at idom x = (case idom x of Some r \<Rightarrow> r | None \<Rightarrow> None)"

definition df_at :: "('a \<rightharpoonup> 'a list) \<Rightarrow> 'a \<Rightarrow> 'a list" where
  "df_at df x = (case df x of Some xs \<Rightarrow> xs | None \<Rightarrow> [])"

text \<open>
  Lines 121 and 122: \<^verbatim>\<open>df[runner]\<close> is created if absent, and \<open>n\<close> is appended unless
  \<^verbatim>\<open>std::find\<close> finds it.
\<close>

definition push_frontier :: "('a \<rightharpoonup> 'a list) \<Rightarrow> 'a \<Rightarrow> 'a \<Rightarrow> ('a \<rightharpoonup> 'a list)" where
  "push_frontier df r n =
     (let xs = df_at df r in if n \<in> set xs then df(r \<mapsto> xs) else df(r \<mapsto> xs @ [n]))"

text \<open>
  The while loop of lines 119 to 124. Nothing in the loop bounds the number of steps,
  so the walk is a partial function: \<open>None\<close> is a walk that never ends.
\<close>

partial_function (option) runner_walk ::
  "('a \<rightharpoonup> 'a node_t) \<Rightarrow> 'a \<Rightarrow> 'a node_t \<Rightarrow> ('a \<rightharpoonup> 'a list) \<Rightarrow> ('a \<rightharpoonup> 'a list) option" where
  "runner_walk idom n runner df =
     (case runner of
        None \<Rightarrow> Some df
      | Some r \<Rightarrow>
          if runner = idom_at idom n \<or> r = n then Some df
          else runner_walk idom n (idom_at idom r) (push_frontier df r n))"

text \<open>The loop over the in-edges of \<open>n\<close> (line 114) and the loop over the vertices (line 113).\<close>

fun in_edges_loop ::
  "('a \<rightharpoonup> 'a node_t) \<Rightarrow> 'a \<Rightarrow> ('a \<times> 'a) list \<Rightarrow> ('a \<rightharpoonup> 'a list) \<Rightarrow> ('a \<rightharpoonup> 'a list) option" where
  "in_edges_loop idom n [] df = Some df"
| "in_edges_loop idom n (e # es) df =
     (case runner_walk idom n (Some (source e)) df of
        None \<Rightarrow> None
      | Some df' \<Rightarrow> in_edges_loop idom n es df')"

fun vertices_loop ::
  "('a \<rightharpoonup> 'a node_t) \<Rightarrow> 'a graph \<Rightarrow> 'a list \<Rightarrow> ('a \<rightharpoonup> 'a list) \<Rightarrow> ('a \<rightharpoonup> 'a list) option" where
  "vertices_loop idom g [] df = Some df"
| "vertices_loop idom g (n # ns) df =
     (case in_edges_loop idom n (in_edges n g) df of
        None \<Rightarrow> None
      | Some df' \<Rightarrow> vertices_loop idom g ns df')"

text \<open>
  \<^verbatim>\<open>graph_algo_impl::dominance(g, entry, df)\<close>: the dominator tree into a fresh local
  map, the frontier loops on the caller's \<open>df\<close>, then the dump of \<open>df\<close> under the tag
  \<^verbatim>\<open>dominance\<close>. The state is the caller's map and the output stream.
\<close>

definition impl_dominance ::
  "('a graph \<Rightarrow> 'a \<Rightarrow> 'a \<Rightarrow> 'a node_t) \<Rightarrow> (string \<Rightarrow> bool) \<Rightarrow> 'a graph \<Rightarrow> 'a \<Rightarrow>
   ('a \<rightharpoonup> 'a list) \<times> 'a diag list \<Rightarrow> (('a \<rightharpoonup> 'a list) \<times> 'a diag list) option" where
  "impl_dominance lt crab_log g entry_node st =
     (case st of (df, out) \<Rightarrow>
        (case dominator_tree lt crab_log g entry_node (Map.empty, out) of (idom, out1) \<Rightarrow>
           (case vertices_loop idom g (vertices g) df of
              None \<Rightarrow> None
            | Some df' \<Rightarrow> Some (df', emit crab_log ''dominance'' (FrontierDump df') out1))))"

text \<open>\<^verbatim>\<open>dominance(g, fdf)\<close> and \<^verbatim>\<open>post_dominance(g, rdf)\<close>, lines 144 to 158.\<close>

definition dominance ::
  "('a graph \<Rightarrow> 'a \<Rightarrow> 'a \<Rightarrow> 'a node_t) \<Rightarrow> (string \<Rightarrow> bool) \<Rightarrow> 'a graph \<Rightarrow>
   ('a \<rightharpoonup> 'a list) \<times> 'a diag list \<Rightarrow> (('a \<rightharpoonup> 'a list) \<times> 'a diag list) option" where
  "dominance lt crab_log g st =
     (case st of (fdf, out) \<Rightarrow>
        impl_dominance lt crab_log g (entry g)
          (fdf, emit crab_log ''dominance'' (Banner ''Dominance Frontiers\<newline>'') out))"

definition post_dominance ::
  "('a graph \<Rightarrow> 'a \<Rightarrow> 'a \<Rightarrow> 'a node_t) \<Rightarrow> (string \<Rightarrow> bool) \<Rightarrow> 'a graph \<Rightarrow>
   ('a \<rightharpoonup> 'a list) \<times> 'a diag list \<Rightarrow> (('a \<rightharpoonup> 'a list) \<times> 'a diag list) option" where
  "post_dominance lt crab_log g st =
     (case st of (rdf, out) \<Rightarrow>
        if \<not> has_exit g then Some (rdf, out)
        else
          (let rev_g = cfg_rev g in
           impl_dominance lt crab_log rev_g (entry rev_g)
             (rdf, emit crab_log ''dominance'' (Banner ''Post-Dominance Frontiers\<newline>'') out)))"

section \<open>Auxiliary notions\<close>

text \<open>The edges of a relation that do not lead into \<open>u\<close>.\<close>

definition avoiding :: "('a \<times> 'a) set \<Rightarrow> 'a \<Rightarrow> ('a \<times> 'a) set" where
  "avoiding R u = {(a, b). (a, b) \<in> R \<and> b \<noteq> u}"

text \<open>Every edge joins two vertices of the graph.\<close>

definition wf_graph :: "'a graph \<Rightarrow> bool" where
  "wf_graph g \<longleftrightarrow>
     (\<forall>e \<in> set (edges g). source e \<in> set (vertices g) \<and> target e \<in> set (vertices g))"

text \<open>The number of vertices that dominate \<open>r\<close>: the measure that the runner walk decreases.\<close>

definition dom_count :: "'a graph \<Rightarrow> 'a \<Rightarrow> 'a \<Rightarrow> nat" where
  "dom_count g entry_node r =
     length (filter (\<lambda>x. dominates g entry_node x r) (remdups (vertices g)))"

text \<open>
  What the walk for an edge \<open>p\<rightarrow>m\<close> does, as the proofs below show: \<open>m\<close> enters the
  frontier of \<open>k\<close> when \<open>frontier_edge g entry_node p m k\<close> holds.
\<close>

definition frontier_edge :: "'a graph \<Rightarrow> 'a \<Rightarrow> 'a \<Rightarrow> 'a \<Rightarrow> 'a \<Rightarrow> bool" where
  "frontier_edge g entry_node p m k \<longleftrightarrow>
     (if reachable g entry_node p
      then dominates g entry_node k p \<and> \<not> dominates g entry_node k m
      else k = p \<and> p \<noteq> m)"

declare runner_walk.simps [code]

section \<open>Example graphs\<close>

text \<open>
  The diamond \<open>A\<rightarrow>B, A\<rightarrow>C, B\<rightarrow>D, C\<rightarrow>D\<close> with the nodes numbered 0 to 3, entry \<open>A\<close>
  and exit \<open>D\<close>; a graph of one node and no exit; a loop \<open>0\<rightarrow>1, 1\<rightarrow>2, 2\<rightarrow>1\<close>; and a
  graph \<open>0\<rightarrow>1, 2\<rightarrow>1, 0\<rightarrow>3\<close> in which node 2 cannot be reached from the entry.
\<close>

definition diamond :: "nat graph" where
  "diamond = \<lparr> vertices = [0, 1, 2, 3], edges = [(0, 1), (0, 2), (1, 3), (2, 3)],
               entry = 0, exit = Some 3 \<rparr>"

definition single_node :: "nat graph" where
  "single_node = \<lparr> vertices = [0], edges = [], entry = 0, exit = None \<rparr>"

definition loop_graph :: "nat graph" where
  "loop_graph = \<lparr> vertices = [0, 1, 2], edges = [(0, 1), (1, 2), (2, 1)],
                  entry = 0, exit = None \<rparr>"

definition detached_graph :: "nat graph" where
  "detached_graph = \<lparr> vertices = [0, 1, 2, 3], edges = [(0, 1), (2, 1), (0, 3)],
                      entry = 0, exit = None \<rparr>"

section \<open>Invariants of the frontier loops\<close>

lemma runner_walk_preserves_aux:
  assumes "runner_walk idom n runner df = Some df'"
  shows "I df \<longrightarrow> (\<forall>d r. I d \<longrightarrow> I (push_frontier d r n)) \<longrightarrow> I df'"
proof (rule runner_walk.raw_induct
    [where P = "\<lambda>idom n runner df df'. I df \<longrightarrow> (\<forall>d r. I d \<longrightarrow> I (push_frontier d r n)) \<longrightarrow> I df'",
     OF _ assms])
  fix walk :: "('a \<rightharpoonup> 'a node_t) \<Rightarrow> 'a \<Rightarrow> 'a node_t \<Rightarrow> ('a \<rightharpoonup> 'a list) \<Rightarrow> ('a \<rightharpoonup> 'a list) option"
  fix idom n runner df df'
  assume IH: "\<And>idom n runner df df'. walk idom n runner df = Some df' \<Longrightarrow>
      I df \<longrightarrow> (\<forall>d r. I d \<longrightarrow> I (push_frontier d r n)) \<longrightarrow> I df'"
  assume body: "(case runner of
        None \<Rightarrow> Some df
      | Some r \<Rightarrow>
          if runner = idom_at idom n \<or> r = n then Some df
          else walk idom n (idom_at idom r) (push_frontier df r n)) = Some df'"
  show "I df \<longrightarrow> (\<forall>d r. I d \<longrightarrow> I (push_frontier d r n)) \<longrightarrow> I df'"
  proof (cases runner)
    case None
    with body have "df' = df" by simp
    then show ?thesis by simp
  next
    case (Some r)
    show ?thesis
    proof (cases "runner = idom_at idom n \<or> r = n")
      case True
      with body Some have "df' = df" by (simp split: if_splits)
      then show ?thesis by simp
    next
      case False
      with body Some have "walk idom n (idom_at idom r) (push_frontier df r n) = Some df'"
        by (simp split: if_splits)
      from IH [OF this] show ?thesis by simp
    qed
  qed
qed

lemma runner_walk_preserves:
  assumes "runner_walk idom n runner df = Some df'"
    and "I df"
    and "\<forall>d r. I d \<longrightarrow> I (push_frontier d r n)"
  shows "I df'"
  using runner_walk_preserves_aux [OF assms(1), of I] assms(2,3) by simp

lemma in_edges_loop_preserves:
  assumes "in_edges_loop idom n es df = Some df'"
    and "I df"
    and "\<forall>d r. I d \<longrightarrow> I (push_frontier d r n)"
  shows "I df'"
  using assms(1,2)
proof (induction es arbitrary: df)
  case Nil
  then show ?case by simp
next
  case (Cons e es)
  from Cons.prems(1) obtain d1 where
    w: "runner_walk idom n (Some (source e)) df = Some d1" and
    l: "in_edges_loop idom n es d1 = Some df'"
    by (cases "runner_walk idom n (Some (source e)) df") simp_all
  have "I d1" by (rule runner_walk_preserves [OF w Cons.prems(2) assms(3)])
  with Cons.IH [OF l] show ?case .
qed

lemma vertices_loop_preserves:
  assumes "vertices_loop idom g ns df = Some df'"
    and "I df"
    and "\<forall>n d r. I d \<longrightarrow> I (push_frontier d r n)"
  shows "I df'"
  using assms(1,2)
proof (induction ns arbitrary: df)
  case Nil
  then show ?case by simp
next
  case (Cons n ns)
  from Cons.prems(1) obtain d1 where
    w: "in_edges_loop idom n (in_edges n g) df = Some d1" and
    l: "vertices_loop idom g ns d1 = Some df'"
    by (cases "in_edges_loop idom n (in_edges n g) df") simp_all
  from assms(3) have "\<forall>d r. I d \<longrightarrow> I (push_frontier d r n)" by simp
  then have "I d1" by (rule in_edges_loop_preserves [of idom n "in_edges n g" df d1 I, OF w Cons.prems(2)])
  with Cons.IH [OF l] show ?case .
qed

lemma impl_dominance_frontier_loops:
  assumes "impl_dominance lt crab_log g e (df, out) = Some (df', out')"
  shows "vertices_loop (fst (dominator_tree lt crab_log g e (Map.empty, out))) g (vertices g) df
           = Some df'"
  using assms
  by (cases "dominator_tree lt crab_log g e (Map.empty, out)")
     (simp add: impl_dominance_def split: option.splits)

lemma impl_dominance_preserves:
  assumes "impl_dominance lt crab_log g e (df, out) = Some (df', out')"
    and "I df"
    and "\<forall>n d r. I d \<longrightarrow> I (push_frontier d r n)"
  shows "I df'"
  by (rule vertices_loop_preserves [OF impl_dominance_frontier_loops [OF assms(1)] assms(2,3)])

lemma dominance_impl:
  "dominance lt crab_log g (df, out) =
   impl_dominance lt crab_log g (entry g)
      (df, emit crab_log ''dominance'' (Banner ''Dominance Frontiers\<newline>'') out)"
  by (simp add: dominance_def)

lemma dominance_preserves:
  assumes "dominance lt crab_log g (df, out) = Some (df', out')"
    and "I df"
    and "\<forall>n d r. I d \<longrightarrow> I (push_frontier d r n)"
  shows "I df'"
  by (rule impl_dominance_preserves [OF assms(1) [unfolded dominance_impl] assms(2,3)])

lemma push_frontier_distinct:
  "\<forall>n d r. (\<forall>k. distinct (df_at d k)) \<longrightarrow> (\<forall>k. distinct (df_at (push_frontier d r n) k))"
  by (auto simp: push_frontier_def df_at_def Let_def split: option.splits)

lemma push_frontier_nonempty:
  "\<forall>n d r. (\<forall>k xs. d k = Some xs \<longrightarrow> xs \<noteq> []) \<longrightarrow>
      (\<forall>k xs. push_frontier d r n k = Some xs \<longrightarrow> xs \<noteq> [])"
  by (auto simp: push_frontier_def df_at_def Let_def split: option.splits if_splits)

lemma diamond_dominance_runs:
  "(case dominance lengauer_tarjan_dominator_tree (\<lambda>tag. False) diamond (Map.empty, []) of
      None \<Rightarrow> False
    | Some (df, out) \<Rightarrow> map df [0, 1, 2, 3] = [None, Some [3], Some [3], None])"
  by code_simp

lemma dominance_keys_nonempty:
  assumes "dominance lt crab_log g (Map.empty, out) = Some (df', out')"
  shows "\<forall>k xs. df' k = Some xs \<longrightarrow> xs \<noteq> []"
proof -
  have e: "\<forall>k xs. (Map.empty :: 'a \<rightharpoonup> 'a list) k = Some xs \<longrightarrow> xs \<noteq> []" by simp
  from dominance_preserves [OF assms, of "\<lambda>d. \<forall>k xs. d k = Some xs \<longrightarrow> xs \<noteq> []",
      OF e push_frontier_nonempty]
  show ?thesis .
qed

section \<open>Paths that avoid a node\<close>

lemma avoiding_subset: "avoiding R u \<subseteq> R"
  by (auto simp: avoiding_def)

lemma avoiding_rtrancl_subset: "(avoiding R u)\<^sup>* \<subseteq> R\<^sup>*"
  by (rule rtrancl_mono) (rule avoiding_subset)

lemma avoiding_commute: "avoiding (avoiding R a) b = avoiding (avoiding R b) a"
  by (auto simp: avoiding_def)

lemma avoiding_step: "(y, z) \<in> R \<Longrightarrow> z \<noteq> u \<Longrightarrow> (y, z) \<in> avoiding R u"
  by (simp add: avoiding_def)

lemma avoiding_target: "(x, y) \<in> (avoiding R u)\<^sup>* \<Longrightarrow> y = x \<or> y \<noteq> u"
  by (erule rtranclE) (auto simp: avoiding_def)

text \<open>A node that cannot be reached is on no path.\<close>

lemma rtrancl_avoiding_unreached:
  assumes "(e, x) \<in> R\<^sup>*" and "(e, b) \<notin> R\<^sup>*"
  shows "(e, x) \<in> (avoiding R b)\<^sup>*"
  using assms(1)
proof (induction rule: rtrancl_induct)
  case base
  show ?case by simp
next
  case (step y z)
  from step.hyps(1,2) have "(e, z) \<in> R\<^sup>*" by (rule rtrancl_into_rtrancl)
  with assms(2) have "z \<noteq> b" by auto
  with step.hyps(2) have "(y, z) \<in> avoiding R b" by (rule avoiding_step)
  with step.IH show ?case by (rule rtrancl_into_rtrancl)
qed

text \<open>On a path, one of two different nodes is met first.\<close>

lemma rtrancl_first_of_two:
  assumes "(e, x) \<in> R\<^sup>*" and "a \<noteq> b"
  shows "(e, a) \<in> (avoiding R b)\<^sup>* \<or> (e, b) \<in> (avoiding R a)\<^sup>* \<or>
         (e, x) \<in> (avoiding (avoiding R a) b)\<^sup>*"
  using assms(1)
proof (induction rule: rtrancl_induct)
  case base
  show ?case by simp
next
  case (step y z)
  show ?case
  proof (cases "(e, a) \<in> (avoiding R b)\<^sup>* \<or> (e, b) \<in> (avoiding R a)\<^sup>*")
    case True
    then show ?thesis by blast
  next
    case False
    with step.IH have both: "(e, y) \<in> (avoiding (avoiding R a) b)\<^sup>*" by blast
    have ya: "(e, y) \<in> (avoiding R a)\<^sup>*"
      using both avoiding_rtrancl_subset [of "avoiding R a" b] by blast
    have yb: "(e, y) \<in> (avoiding R b)\<^sup>*"
      using both avoiding_rtrancl_subset [of "avoiding R b" a] avoiding_commute [of R a b] by auto
    show ?thesis
    proof (cases "z = a")
      case True
      with step.hyps(2) assms(2) have "(y, a) \<in> avoiding R b" by (simp add: avoiding_def)
      with yb have "(e, a) \<in> (avoiding R b)\<^sup>*" by (rule rtrancl_into_rtrancl)
      then show ?thesis by blast
    next
      case za: False
      show ?thesis
      proof (cases "z = b")
        case True
        with step.hyps(2) assms(2) have "(y, b) \<in> avoiding R a" by (simp add: avoiding_def)
        with ya have "(e, b) \<in> (avoiding R a)\<^sup>*" by (rule rtrancl_into_rtrancl)
        then show ?thesis by blast
      next
        case False
        with za step.hyps(2) have "(y, z) \<in> avoiding (avoiding R a) b"
          by (simp add: avoiding_def)
        with both have "(e, z) \<in> (avoiding (avoiding R a) b)\<^sup>*" by (rule rtrancl_into_rtrancl)
        then show ?thesis by blast
      qed
    qed
  qed
qed

text \<open>On a path, one of two nodes is met last, if any is met at all.\<close>

lemma rtrancl_last_of_two:
  assumes "(e, x) \<in> R\<^sup>*"
  shows "(e, x) \<in> (avoiding (avoiding R a) b)\<^sup>* \<or> (a, x) \<in> (avoiding R b)\<^sup>* \<or>
         (b, x) \<in> (avoiding R a)\<^sup>*"
  using assms
proof (induction rule: rtrancl_induct)
  case base
  show ?case by simp
next
  case (step y z)
  show ?case
  proof (cases "z = a \<or> z = b")
    case True
    then show ?thesis by auto
  next
    case False
    with step.hyps(2) have
      s1: "(y, z) \<in> avoiding (avoiding R a) b" and
      s2: "(y, z) \<in> avoiding R b" and
      s3: "(y, z) \<in> avoiding R a"
      by (simp_all add: avoiding_def)
    from step.IH show ?thesis
    proof (elim disjE)
      assume "(e, y) \<in> (avoiding (avoiding R a) b)\<^sup>*"
      from this s1 have "(e, z) \<in> (avoiding (avoiding R a) b)\<^sup>*" by (rule rtrancl_into_rtrancl)
      then show ?thesis by blast
    next
      assume "(a, y) \<in> (avoiding R b)\<^sup>*"
      from this s2 have "(a, z) \<in> (avoiding R b)\<^sup>*" by (rule rtrancl_into_rtrancl)
      then show ?thesis by blast
    next
      assume "(b, y) \<in> (avoiding R a)\<^sup>*"
      from this s3 have "(b, z) \<in> (avoiding R a)\<^sup>*" by (rule rtrancl_into_rtrancl)
      then show ?thesis by blast
    qed
  qed
qed

section \<open>Dominance is a partial order on the reachable nodes\<close>

lemma reachable_rtrancl: "reachable g e v \<longleftrightarrow> (e, v) \<in> (set (edges g))\<^sup>*"
  by (auto simp: reachable_def rtrancl_eq_or_trancl)

lemma set_edges_avoiding: "set (edges_avoiding g u) = avoiding (set (edges g)) u"
  by (auto simp: edges_avoiding_def avoiding_def target_def)

lemma dominates_rtrancl:
  "dominates g e u v \<longleftrightarrow> e = u \<or> (e, v) \<notin> (avoiding (set (edges g)) u)\<^sup>*"
  by (auto simp: dominates_def set_edges_avoiding rtrancl_eq_or_trancl)

lemma dominates_refl: "dominates g e v v"
  using avoiding_target [of e v "set (edges g)" v] by (auto simp: dominates_rtrancl)

lemma dominates_entry: "dominates g e e v"
  by (simp add: dominates_rtrancl)

lemma dominates_entry_iff: "dominates g e u e \<longleftrightarrow> u = e"
  by (auto simp: dominates_rtrancl)

lemma dominates_unreachable: "\<not> reachable g e v \<Longrightarrow> dominates g e u v"
  using avoiding_rtrancl_subset [of "set (edges g)" u]
  by (auto simp: dominates_rtrancl reachable_rtrancl)

lemma dominates_reachable:
  assumes "dominates g e u v" and "reachable g e v"
  shows "reachable g e u"
proof (rule ccontr)
  assume n: "\<not> reachable g e u"
  then have "(e, u) \<notin> (set (edges g))\<^sup>*" by (simp add: reachable_rtrancl)
  with assms(2) have "(e, v) \<in> (avoiding (set (edges g)) u)\<^sup>*"
    by (simp add: reachable_rtrancl rtrancl_avoiding_unreached)
  moreover from n have "e \<noteq> u" by (auto simp: reachable_rtrancl)
  ultimately show False using assms(1) by (simp add: dominates_rtrancl)
qed

lemma dominates_trans:
  assumes "dominates g e a b" and "dominates g e b c"
  shows "dominates g e a c"
proof (rule ccontr)
  assume "\<not> dominates g e a c"
  then have ea: "e \<noteq> a" and c: "(e, c) \<in> (avoiding (set (edges g)) a)\<^sup>*"
    by (simp_all add: dominates_rtrancl)
  from assms(1) ea have b: "(e, b) \<notin> (avoiding (set (edges g)) a)\<^sup>*"
    by (simp add: dominates_rtrancl)
  then have eb: "e \<noteq> b" by auto
  from rtrancl_avoiding_unreached [OF c b]
  have "(e, c) \<in> (avoiding (avoiding (set (edges g)) a) b)\<^sup>*" .
  then have "(e, c) \<in> (avoiding (set (edges g)) b)\<^sup>*"
    using avoiding_rtrancl_subset [of "avoiding (set (edges g)) b" a]
      avoiding_commute [of "set (edges g)" a b] by auto
  with eb assms(2) show False by (simp add: dominates_rtrancl)
qed

lemma dominates_antisym:
  assumes "dominates g e a b" and "dominates g e b a" and "reachable g e a"
  shows "a = b"
proof (rule ccontr)
  assume ab: "a \<noteq> b"
  from assms(3) have "(e, a) \<in> (set (edges g))\<^sup>*" by (simp add: reachable_rtrancl)
  from rtrancl_first_of_two [OF this ab]
  have "(e, a) \<in> (avoiding (set (edges g)) b)\<^sup>* \<or> (e, b) \<in> (avoiding (set (edges g)) a)\<^sup>*"
    using avoiding_rtrancl_subset [of "avoiding (set (edges g)) b" a]
      avoiding_commute [of "set (edges g)" a b] by auto
  then show False
  proof
    assume r: "(e, a) \<in> (avoiding (set (edges g)) b)\<^sup>*"
    with assms(2) have "e = b" by (simp add: dominates_rtrancl)
    with ab have "e \<noteq> a" and "(e, b) \<in> (avoiding (set (edges g)) a)\<^sup>*" by auto
    with assms(1) show False by (simp add: dominates_rtrancl)
  next
    assume r: "(e, b) \<in> (avoiding (set (edges g)) a)\<^sup>*"
    with assms(1) have "e = a" by (simp add: dominates_rtrancl)
    with ab have "e \<noteq> b" and "(e, a) \<in> (avoiding (set (edges g)) b)\<^sup>*" by auto
    with assms(2) show False by (simp add: dominates_rtrancl)
  qed
qed

text \<open>The dominators of a reachable node are linearly ordered by dominance.\<close>

lemma dominators_chain:
  assumes "dominates g e a v" and "dominates g e b v" and "reachable g e v"
  shows "dominates g e a b \<or> dominates g e b a"
proof (rule ccontr)
  assume "\<not> (dominates g e a b \<or> dominates g e b a)"
  then have ea: "e \<noteq> a" and b: "(e, b) \<in> (avoiding (set (edges g)) a)\<^sup>*"
    and eb: "e \<noteq> b" and a: "(e, a) \<in> (avoiding (set (edges g)) b)\<^sup>*"
    by (simp_all add: dominates_rtrancl)
  from assms(3) have "(e, v) \<in> (set (edges g))\<^sup>*" by (simp add: reachable_rtrancl)
  from rtrancl_last_of_two [OF this, of a b] show False
  proof (elim disjE)
    assume "(e, v) \<in> (avoiding (avoiding (set (edges g)) a) b)\<^sup>*"
    then have "(e, v) \<in> (avoiding (set (edges g)) a)\<^sup>*"
      using avoiding_rtrancl_subset [of "avoiding (set (edges g)) a" b] by auto
    with ea assms(1) show False by (simp add: dominates_rtrancl)
  next
    assume "(a, v) \<in> (avoiding (set (edges g)) b)\<^sup>*"
    with a have "(e, v) \<in> (avoiding (set (edges g)) b)\<^sup>*" by (rule rtrancl_trans)
    with eb assms(2) show False by (simp add: dominates_rtrancl)
  next
    assume "(b, v) \<in> (avoiding (set (edges g)) a)\<^sup>*"
    with b have "(e, v) \<in> (avoiding (set (edges g)) a)\<^sup>*" by (rule rtrancl_trans)
    with ea assms(1) show False by (simp add: dominates_rtrancl)
  qed
qed

text \<open>A strict dominator of a node dominates each of its predecessors.\<close>

lemma dominates_predecessor:
  assumes "(p, m) \<in> set (edges g)" and "dominates g e u m" and "u \<noteq> m"
  shows "dominates g e u p"
proof (rule ccontr)
  assume "\<not> dominates g e u p"
  then have eu: "e \<noteq> u" and p: "(e, p) \<in> (avoiding (set (edges g)) u)\<^sup>*"
    by (simp_all add: dominates_rtrancl)
  from assms(1,3) have "(p, m) \<in> avoiding (set (edges g)) u" by (simp add: avoiding_def)
  with p have "(e, m) \<in> (avoiding (set (edges g)) u)\<^sup>*" by (rule rtrancl_into_rtrancl)
  with eu assms(2) show False by (simp add: dominates_rtrancl)
qed

lemma reachable_step:
  "reachable g e p \<Longrightarrow> (p, m) \<in> set (edges g) \<Longrightarrow> reachable g e m"
  by (auto simp: reachable_rtrancl intro: rtrancl_into_rtrancl)

section \<open>Dominance over explicit paths\<close>

lemma is_path_snoc:
  "is_path g xs \<Longrightarrow> (last xs, z) \<in> set (edges g) \<Longrightarrow> is_path g (xs @ [z])"
  by (induction g xs rule: is_path.induct) auto

lemma is_path_avoiding:
  "is_path g xs \<Longrightarrow> u \<notin> set xs \<Longrightarrow> (hd xs, last xs) \<in> (avoiding (set (edges g)) u)\<^sup>*"
proof (induction g xs rule: is_path.induct)
  case (1 g)
  then show ?case by simp
next
  case (2 g x)
  then show ?case by simp
next
  case (3 g x y xs)
  then have "(x, y) \<in> avoiding (set (edges g)) u"
    and "(y, last (y # xs)) \<in> (avoiding (set (edges g)) u)\<^sup>*"
    by (auto simp: avoiding_def)
  then have "(x, last (y # xs)) \<in> (avoiding (set (edges g)) u)\<^sup>*"
    by (rule converse_rtrancl_into_rtrancl)
  then show ?case by simp
qed

lemma avoiding_is_path:
  assumes "(e, v) \<in> (avoiding (set (edges g)) u)\<^sup>*" and "e \<noteq> u"
  shows "\<exists>xs. is_path g xs \<and> hd xs = e \<and> last xs = v \<and> u \<notin> set xs"
  using assms(1)
proof (induction rule: rtrancl_induct)
  case base
  have "is_path g [e] \<and> hd [e] = e \<and> last [e] = e \<and> u \<notin> set [e]"
    using assms(2) by simp
  then show ?case by blast
next
  case (step y z)
  then obtain xs where xs: "is_path g xs" "hd xs = e" "last xs = y" "u \<notin> set xs" by blast
  from step.hyps(2) have yz: "(y, z) \<in> set (edges g)" and zu: "z \<noteq> u"
    by (simp_all add: avoiding_def)
  from xs(1) have ne: "xs \<noteq> []" by (cases xs) simp_all
  have "is_path g (xs @ [z])" using xs(1,3) yz by (simp add: is_path_snoc)
  moreover have "hd (xs @ [z]) = e" using ne xs(2) by simp
  moreover have "last (xs @ [z]) = z" by simp
  moreover have "u \<notin> set (xs @ [z])" using xs(4) zu by simp
  ultimately show ?case by blast
qed

text \<open>
  \<open>dominates\<close> is the notion of the header comment: \<open>u\<close> dominates \<open>v\<close> if and only if
  every path from the entry to \<open>v\<close> passes through \<open>u\<close>.
\<close>

lemma dominates_iff_every_path:
  "dominates g e u v \<longleftrightarrow> (\<forall>xs. path_from_to g e xs v \<longrightarrow> u \<in> set xs)"
proof
  assume d: "dominates g e u v"
  show "\<forall>xs. path_from_to g e xs v \<longrightarrow> u \<in> set xs"
  proof (intro allI impI, rule ccontr)
    fix xs
    assume p: "path_from_to g e xs v" and n: "u \<notin> set xs"
    from p have ip: "is_path g xs" and h: "hd xs = e" and l: "last xs = v"
      by (simp_all add: path_from_to_def)
    from ip have "xs \<noteq> []" by (cases xs) simp_all
    with h n have "e \<noteq> u" by (cases xs) auto
    moreover from is_path_avoiding [OF ip n] h l
    have "(e, v) \<in> (avoiding (set (edges g)) u)\<^sup>*" by simp
    ultimately show False using d by (simp add: dominates_rtrancl)
  qed
next
  assume a: "\<forall>xs. path_from_to g e xs v \<longrightarrow> u \<in> set xs"
  show "dominates g e u v"
  proof (rule ccontr)
    assume "\<not> dominates g e u v"
    then have "e \<noteq> u" and "(e, v) \<in> (avoiding (set (edges g)) u)\<^sup>*"
      by (simp_all add: dominates_rtrancl)
    from avoiding_is_path [OF this(2,1)] obtain xs where
      "path_from_to g e xs v" and "u \<notin> set xs"
      by (auto simp: path_from_to_def)
    with a show False by blast
  qed
qed

section \<open>The modelled dominator tree\<close>

lemma dom_count_card: "dom_count g e r = card {x \<in> set (vertices g). dominates g e x r}"
proof -
  have "distinct (filter (\<lambda>x. dominates g e x r) (remdups (vertices g)))" by simp
  from distinct_card [OF this] show ?thesis by (simp add: dom_count_def)
qed

lemma strictly_dominates_count:
  assumes "strictly_dominates g e u w" and "w \<in> set (vertices g)" and "reachable g e w"
  shows "dom_count g e u < dom_count g e w"
proof -
  from assms(1) have d: "dominates g e u w" and ne: "u \<noteq> w"
    by (simp_all add: strictly_dominates_def)
  have "{x \<in> set (vertices g). dominates g e x u} \<subset> {x \<in> set (vertices g). dominates g e x w}"
  proof
    show "{x \<in> set (vertices g). dominates g e x u} \<subseteq> {x \<in> set (vertices g). dominates g e x w}"
      using d dominates_trans by fast
    have "w \<in> {x \<in> set (vertices g). dominates g e x w}"
      using assms(2) by (simp add: dominates_refl)
    moreover have "w \<notin> {x \<in> set (vertices g). dominates g e x u}"
    proof
      assume "w \<in> {x \<in> set (vertices g). dominates g e x u}"
      then have "dominates g e w u" by simp
      from dominates_antisym [OF this d assms(3)] ne show False by simp
    qed
    ultimately show "{x \<in> set (vertices g). dominates g e x u} \<noteq> {x \<in> set (vertices g). dominates g e x w}"
      by blast
  qed
  then have "card {x \<in> set (vertices g). dominates g e x u} < card {x \<in> set (vertices g). dominates g e x w}"
    by (intro psubset_card_mono) simp_all
  then show ?thesis by (simp add: dom_count_card)
qed

lemma lengauer_tarjan_Some:
  assumes "lengauer_tarjan_dominator_tree g e v = Some u"
  shows "u \<in> set (vertices g)" and "immediate_dominator g e u v"
    and "v \<noteq> e" and "reachable g e v"
proof -
  from assms have c: "\<not> (v = e \<or> \<not> reachable g e v)"
    and f: "find (\<lambda>u. immediate_dominator g e u v) (vertices g) = Some u"
    by (simp_all add: lengauer_tarjan_dominator_tree_def split: if_splits)
  from c show "v \<noteq> e" and "reachable g e v" by simp_all
  from f show "u \<in> set (vertices g)" and "immediate_dominator g e u v"
    by (auto simp: find_Some_iff)
qed

lemma lengauer_tarjan_strict:
  "lengauer_tarjan_dominator_tree g e v = Some u \<Longrightarrow> strictly_dominates g e u v"
  using lengauer_tarjan_Some(2) [of g e v u] by (simp add: immediate_dominator_def)

text \<open>Every strict dominator of \<open>v\<close> dominates the immediate dominator of \<open>v\<close>.\<close>

lemma lengauer_tarjan_closest:
  assumes "lengauer_tarjan_dominator_tree g e v = Some u"
    and "w \<in> set (vertices g)" and "strictly_dominates g e w v"
  shows "dominates g e w u"
proof (cases "w = u")
  case True
  then show ?thesis by (simp add: dominates_refl)
next
  case False
  from lengauer_tarjan_Some(2) [OF assms(1)] assms(2,3) False
  have n: "\<not> strictly_dominates g e u w" by (simp add: immediate_dominator_def)
  from lengauer_tarjan_strict [OF assms(1)] have "dominates g e u v"
    by (simp add: strictly_dominates_def)
  moreover from assms(3) have "dominates g e w v" by (simp add: strictly_dominates_def)
  ultimately have "dominates g e w u \<or> dominates g e u w"
    using lengauer_tarjan_Some(4) [OF assms(1)] by (simp add: dominators_chain)
  with n False show ?thesis by (auto simp: strictly_dominates_def)
qed

lemma lengauer_tarjan_count:
  assumes "lengauer_tarjan_dominator_tree g e r = Some u" and "r \<in> set (vertices g)"
  shows "dom_count g e u < dom_count g e r"
  using strictly_dominates_count [OF lengauer_tarjan_strict [OF assms(1)] assms(2)
      lengauer_tarjan_Some(4) [OF assms(1)]] .

lemma lengauer_tarjan_dominators:
  assumes "lengauer_tarjan_dominator_tree g e r = Some u" and "k \<in> set (vertices g)"
  shows "dominates g e k r \<longleftrightarrow> k = r \<or> dominates g e k u"
proof
  assume d: "dominates g e k r"
  show "k = r \<or> dominates g e k u"
  proof (cases "k = r")
    case True
    then show ?thesis by simp
  next
    case False
    with d have "strictly_dominates g e k r" by (simp add: strictly_dominates_def)
    from lengauer_tarjan_closest [OF assms(1,2) this] show ?thesis by simp
  qed
next
  assume "k = r \<or> dominates g e k u"
  then show "dominates g e k r"
  proof
    assume "k = r"
    then show ?thesis by (simp add: dominates_refl)
  next
    assume "dominates g e k u"
    moreover from lengauer_tarjan_strict [OF assms(1)] have "dominates g e u r"
      by (simp add: strictly_dominates_def)
    ultimately show ?thesis by (rule dominates_trans)
  qed
qed

text \<open>A reachable node other than the entry has an immediate dominator among the vertices.\<close>

lemma lengauer_tarjan_exists:
  assumes "e \<in> set (vertices g)" and "reachable g e v" and "v \<noteq> e"
  shows "\<exists>u. lengauer_tarjan_dominator_tree g e v = Some u"
proof -
  let ?S = "{w \<in> set (vertices g). strictly_dominates g e w v}"
  have fin: "finite ?S" by simp
  have "e \<in> ?S" using assms(1,3) by (simp add: strictly_dominates_def dominates_entry)
  then have ne: "?S \<noteq> {}" by blast
  have "finite (dom_count g e ` ?S)" "dom_count g e ` ?S \<noteq> {}"
    using ne by simp_all
  from Max_in [OF this] obtain u where u: "u \<in> ?S"
    and m: "dom_count g e u = Max (dom_count g e ` ?S)" by auto
  have top: "dom_count g e w \<le> dom_count g e u" if "w \<in> ?S" for w
    using that m by simp
  have "immediate_dominator g e u v"
    unfolding immediate_dominator_def
  proof (intro conjI ballI impI)
    show "strictly_dominates g e u v" using u by simp
  next
    fix w
    assume w: "w \<in> set (vertices g)" and ws: "w \<noteq> u \<and> strictly_dominates g e w v"
    show "\<not> strictly_dominates g e u w"
    proof
      assume s: "strictly_dominates g e u w"
      from ws have "dominates g e w v" by (simp add: strictly_dominates_def)
      from dominates_reachable [OF this assms(2)] have "reachable g e w" .
      from strictly_dominates_count [OF s w this] top [of w] w ws show False by simp
    qed
  qed
  moreover from u have "u \<in> set (vertices g)" by simp
  ultimately have "find (\<lambda>u. immediate_dominator g e u v) (vertices g) \<noteq> None"
    by (auto simp: find_None_iff)
  with assms(2,3) show ?thesis by (simp add: lengauer_tarjan_dominator_tree_def)
qed

lemma lengauer_tarjan_None:
  "v = e \<or> \<not> reachable g e v \<Longrightarrow> lengauer_tarjan_dominator_tree g e v = None"
  by (auto simp: lengauer_tarjan_dominator_tree_def)

text \<open>The map that \<open>dominator_tree\<close> leaves behind.\<close>

lemma dominator_tree_loop_idom:
  "fst (dominator_tree_loop pm crab_log vs (idom, out)) v =
     (case idom v of Some x \<Rightarrow> Some x | None \<Rightarrow> if v \<in> set vs then Some (pm v) else None)"
proof (induction vs arbitrary: idom out)
  case Nil
  show ?case by (simp split: option.splits)
next
  case (Cons a vs)
  show ?case
  proof (cases "pm a")
    case None
    then show ?thesis
      using Cons.IH [of "map_insert idom a None" "emit crab_log ''dominator'' (NotDominated a) out"]
      by (auto simp: map_insert_def split: option.splits)
  next
    case (Some u)
    then show ?thesis
      using Cons.IH [of "map_insert idom a (Some u)"
          "emit crab_log ''dominator'' (ImmediateDominator u a) out"]
      by (auto simp: map_insert_def split: option.splits)
  qed
qed

lemma dominator_tree_map:
  "fst (dominator_tree lt crab_log g e (Map.empty, out)) v =
     (if v \<in> set (vertices g) then Some (lt g e v) else None)"
  by (simp add: dominator_tree_def dominator_tree_loop_idom)

lemma dominator_tree_map_at:
  "idom_at (fst (dominator_tree lt crab_log g e (Map.empty, out))) v =
     (if v \<in> set (vertices g) then lt g e v else None)"
  by (simp add: idom_at_def dominator_tree_map)

section \<open>Termination of the runner walk\<close>

lemma runner_walk_None: "runner_walk idom n None df = Some df"
  by (subst runner_walk.simps) simp

lemma runner_walk_stop:
  "Some r = idom_at idom n \<or> r = n \<Longrightarrow> runner_walk idom n (Some r) df = Some df"
  by (subst runner_walk.simps) simp

lemma runner_walk_step:
  "\<not> (Some r = idom_at idom n \<or> r = n) \<Longrightarrow>
   runner_walk idom n (Some r) df = runner_walk idom n (idom_at idom r) (push_frontier df r n)"
  by (subst runner_walk.simps) simp

text \<open>
  The walk ends whenever each step of \<open>idom\<close> decreases some measure, that is, whenever
  \<open>idom\<close> has no cycle.
\<close>

lemma runner_walk_terminates_Some:
  assumes "\<forall>r u. idom_at idom r = Some u \<longrightarrow> f u < (f r :: nat)"
  shows "\<forall>df. \<exists>df'. runner_walk idom n (Some r) df = Some df'"
proof (induction "f r" arbitrary: r rule: less_induct)
  case less
  show ?case
  proof
    fix df
    show "\<exists>df'. runner_walk idom n (Some r) df = Some df'"
    proof (cases "Some r = idom_at idom n \<or> r = n")
      case True
      then show ?thesis by (simp add: runner_walk_stop)
    next
      case False
      show ?thesis
      proof (cases "idom_at idom r")
        case None
        with False show ?thesis by (simp add: runner_walk_step runner_walk_None)
      next
        case (Some u)
        with assms have "f u < f r" by simp
        from less [OF this] Some False show ?thesis by (simp add: runner_walk_step)
      qed
    qed
  qed
qed

lemma runner_walk_terminates:
  assumes "\<forall>r u. idom_at idom r = Some u \<longrightarrow> f u < (f r :: nat)"
  shows "\<exists>df'. runner_walk idom n runner df = Some df'"
proof (cases runner)
  case None
  then show ?thesis by (simp add: runner_walk_None)
next
  case (Some r)
  with runner_walk_terminates_Some [OF assms, of n r] show ?thesis by simp
qed

lemma in_edges_loop_terminates:
  assumes "\<forall>r u. idom_at idom r = Some u \<longrightarrow> f u < (f r :: nat)"
  shows "\<exists>df'. in_edges_loop idom n es df = Some df'"
proof (induction es arbitrary: df)
  case Nil
  show ?case by simp
next
  case (Cons e es)
  from runner_walk_terminates [OF assms, of n "Some (source e)" df] obtain d1 where
    "runner_walk idom n (Some (source e)) df = Some d1" by blast
  with Cons [of d1] show ?case by simp
qed

lemma vertices_loop_terminates:
  assumes "\<forall>r u. idom_at idom r = Some u \<longrightarrow> f u < (f r :: nat)"
  shows "\<exists>df'. vertices_loop idom g ns df = Some df'"
proof (induction ns arbitrary: df)
  case Nil
  show ?case by simp
next
  case (Cons n ns)
  from in_edges_loop_terminates [OF assms, of n "in_edges n g" df] obtain d1 where
    "in_edges_loop idom n (in_edges n g) df = Some d1" by blast
  with Cons [of d1] show ?case by simp
qed

lemma impl_dominance_result:
  "impl_dominance lt crab_log g e (df, out) =
     map_option (\<lambda>df'. (df', emit crab_log ''dominance'' (FrontierDump df')
         (snd (dominator_tree lt crab_log g e (Map.empty, out)))))
       (vertices_loop (fst (dominator_tree lt crab_log g e (Map.empty, out))) g (vertices g) df)"
  by (cases "dominator_tree lt crab_log g e (Map.empty, out)")
     (simp add: impl_dominance_def split: option.splits)

lemma impl_dominance_terminates:
  assumes "\<forall>r u. r \<in> set (vertices g) \<and> lt g e r = Some u \<longrightarrow> f u < (f r :: nat)"
  shows "\<exists>df' out'. impl_dominance lt crab_log g e (df, out) = Some (df', out')"
proof -
  let ?idom = "fst (dominator_tree lt crab_log g e (Map.empty, out))"
  have "\<forall>r u. idom_at ?idom r = Some u \<longrightarrow> f u < f r"
    using assms by (simp add: dominator_tree_map_at split: if_splits)
  from vertices_loop_terminates [OF this, of g "vertices g" df] show ?thesis
    by (auto simp: impl_dominance_result)
qed

lemma lengauer_tarjan_acyclic:
  "\<forall>r u. r \<in> set (vertices g) \<and> lengauer_tarjan_dominator_tree g e r = Some u \<longrightarrow>
     dom_count g e u < dom_count g e r"
  by (auto intro: lengauer_tarjan_count)

section \<open>Claims about the frontier lists\<close>

text \<open>
  C9: every frontier list produced by \<open>dominance\<close> is free of duplicates, whatever the
  library call \<open>lt\<close> returned, provided the lists of the map passed in are (an empty
  map in particular): a node is appended only when \<^verbatim>\<open>std::find\<close> does not find it.
\<close>

theorem frontier_no_duplicates:
  assumes "dominance lt crab_log g (fdf, out) = Some (df', out')"
    and "\<forall>k. distinct (df_at fdf k)"
  shows "distinct (df_at df' k)"
proof -
  from dominance_preserves [OF assms(1), of "\<lambda>d. \<forall>k. distinct (df_at d k)",
      OF assms(2) push_frontier_distinct]
  show ?thesis by simp
qed

theorem frontier_no_duplicates_witness:
  "\<exists>df' out'. dominance lengauer_tarjan_dominator_tree (\<lambda>tag. False) diamond (Map.empty, [])
       = Some (df', out') \<and> df' 1 = Some [3] \<and> distinct (df_at df' 1)"
proof -
  from diamond_dominance_runs obtain df' out' where
    r: "dominance lengauer_tarjan_dominator_tree (\<lambda>tag. False) diamond (Map.empty, [])
          = Some (df', out')" and v: "df' 1 = Some [3]"
    by (cases "dominance lengauer_tarjan_dominator_tree (\<lambda>tag. False) diamond (Map.empty, [])")
       auto
  have "\<forall>k. distinct (df_at (Map.empty :: nat \<rightharpoonup> nat list) k)"
    by (simp add: df_at_def)
  from frontier_no_duplicates [OF r this, of 1] r v show ?thesis by simp
qed

text \<open>
  C10: when the map passed to \<open>dominance\<close> is empty, every key of the returned map has a
  non-empty list: \<^verbatim>\<open>df[runner]\<close> creates an entry only in an iteration that also
  appends \<open>n\<close> to it.
\<close>

theorem frontier_keys_nonempty:
  assumes "dominance lt crab_log g (Map.empty, out) = Some (df', out')"
    and "df' k = Some xs"
  shows "xs \<noteq> []"
  using dominance_keys_nonempty [OF assms(1)] assms(2) by simp

theorem frontier_keys_nonempty_witness:
  "\<exists>df' out' xs. dominance lengauer_tarjan_dominator_tree (\<lambda>tag. False) diamond (Map.empty, [])
       = Some (df', out') \<and> df' 2 = Some xs \<and> xs \<noteq> [] \<and> df' 0 = None"
proof -
  from diamond_dominance_runs obtain df' out' where
    r: "dominance lengauer_tarjan_dominator_tree (\<lambda>tag. False) diamond (Map.empty, [])
          = Some (df', out')" and v: "df' 2 = Some [3]" and z: "df' 0 = None"
    by (cases "dominance lengauer_tarjan_dominator_tree (\<lambda>tag. False) diamond (Map.empty, [])")
       auto
  from frontier_keys_nonempty [OF r v] r v z show ?thesis by simp
qed
section \<open>Post-dominance without an exit\<close>

lemma post_dominance_no_exit_unchanged:
  "\<not> has_exit g \<Longrightarrow> post_dominance lt crab_log g (rdf, out) = Some (rdf, out)"
  by (simp add: post_dominance_def)

text \<open>
  C4: on a graph without an exit node, \<open>post_dominance\<close> returns at once: the map stays
  empty and the output stream is as it was, for every logging configuration and for
  every behaviour \<open>lt\<close> of the library, so neither the dominator tree nor any loop over
  the graph is run.
\<close>

theorem post_dominance_no_exit:
  "\<not> has_exit g \<Longrightarrow>
   post_dominance lt crab_log g (Map.empty, out) = Some (Map.empty, out)"
  by (rule post_dominance_no_exit_unchanged)

theorem post_dominance_no_exit_witness:
  "\<not> has_exit loop_graph \<and>
   post_dominance lengauer_tarjan_dominator_tree (\<lambda>tag. True) loop_graph (Map.empty, [])
     = Some (Map.empty, [])"
proof -
  have h: "\<not> has_exit loop_graph" by (simp add: has_exit_def loop_graph_def)
  from post_dominance_no_exit [OF h] h show ?thesis by simp
qed

section \<open>Which nodes have an entry\<close>

lemma single_node_dominance_runs:
  "(case dominance lengauer_tarjan_dominator_tree (\<lambda>tag. False) single_node (Map.empty, []) of
      None \<Rightarrow> False
    | Some (df, out) \<Rightarrow> df 0 = None)"
  by code_simp

text \<open>
  C5 as stated fails: the graph with the single node 0 and no edge gives a map without
  an entry for node 0.
\<close>

theorem frontier_entry_counterexample:
  "dominance lengauer_tarjan_dominator_tree (\<lambda>tag. False) single_node (Map.empty, []) \<noteq> None \<and>
   0 \<in> set (vertices single_node) \<and>
   0 \<notin> dom (fst (the (dominance lengauer_tarjan_dominator_tree (\<lambda>tag. False) single_node
                          (Map.empty, []))))"
  using single_node_dominance_runs
  by (cases "dominance lengauer_tarjan_dominator_tree (\<lambda>tag. False) single_node (Map.empty, [])")
     (auto simp: single_node_def)

text \<open>
  C5, amended: the frontier of every node is read from the returned map with \<^verbatim>\<open>df[k]\<close>,
  which is the empty list for a node without entry; a node has an entry exactly when
  its frontier is not empty.
\<close>

theorem frontier_entry_iff:
  assumes "dominance lt crab_log g (Map.empty, out) = Some (df', out')"
  shows "k \<in> dom df' \<longleftrightarrow> df_at df' k \<noteq> []"
  using dominance_keys_nonempty [OF assms]
  by (cases "df' k") (simp_all add: df_at_def dom_def)

theorem frontier_entry_iff_witness:
  "\<exists>df' out'. dominance lengauer_tarjan_dominator_tree (\<lambda>tag. False) diamond (Map.empty, [])
       = Some (df', out') \<and> 1 \<in> dom df' \<and> df_at df' 1 = [3] \<and> 0 \<notin> dom df' \<and> df_at df' 0 = []"
proof -
  from diamond_dominance_runs obtain df' out' where
    r: "dominance lengauer_tarjan_dominator_tree (\<lambda>tag. False) diamond (Map.empty, [])
          = Some (df', out')" and v: "df' 1 = Some [3]" and z: "df' 0 = None"
    by (cases "dominance lengauer_tarjan_dominator_tree (\<lambda>tag. False) diamond (Map.empty, [])")
       auto
  from frontier_entry_iff [OF r, of 1] frontier_entry_iff [OF r, of 0] r v z
  show ?thesis by (auto simp: df_at_def)
qed

section \<open>The dominator map\<close>

lemma diamond_dominator_tree_runs:
  "(case dominator_tree lengauer_tarjan_dominator_tree (\<lambda>tag. False) diamond 0 (Map.empty, []) of
      (idom, out) \<Rightarrow> map idom [0, 1, 2, 3] = [Some None, Some (Some 0), Some (Some 0), Some (Some 0)])"
  by code_simp

text \<open>
  C2: when the entry is a vertex, \<open>dominator_tree\<close> fills an empty map with one entry
  per vertex: the null vertex for the entry and for every vertex that cannot be reached
  from it, and for every other vertex \<open>v\<close> a vertex different from \<open>v\<close> that dominates
  \<open>v\<close>. By \<open>dominates_iff_every_path\<close>, to dominate \<open>v\<close> is to lie on every path from
  the entry to \<open>v\<close>. The library call is the modelled one.
\<close>

theorem dominator_tree_correct:
  assumes "entry_node \<in> set (vertices g)"
    and "dominator_tree lengauer_tarjan_dominator_tree crab_log g entry_node (Map.empty, out)
           = (idom, out')"
  shows "dom idom = set (vertices g) \<and>
         idom entry_node = Some None \<and>
         (\<forall>v \<in> set (vertices g). reachable g entry_node v \<and> v \<noteq> entry_node \<longrightarrow>
            (\<exists>u \<in> set (vertices g). idom v = Some (Some u) \<and> u \<noteq> v \<and> dominates g entry_node u v)) \<and>
         (\<forall>v \<in> set (vertices g). \<not> reachable g entry_node v \<longrightarrow> idom v = Some None)"
proof -
  have idom: "idom v = (if v \<in> set (vertices g)
      then Some (lengauer_tarjan_dominator_tree g entry_node v) else None)" for v
    using dominator_tree_map [of lengauer_tarjan_dominator_tree crab_log g entry_node out v]
      assms(2) by simp
  have "dom idom = set (vertices g)"
    by (auto simp: idom dom_def)
  moreover have "idom entry_node = Some None"
    using assms(1) by (simp add: idom lengauer_tarjan_None)
  moreover have "\<exists>u \<in> set (vertices g). idom v = Some (Some u) \<and> u \<noteq> v \<and> dominates g entry_node u v"
    if v: "v \<in> set (vertices g)" and r: "reachable g entry_node v" and ne: "v \<noteq> entry_node" for v
  proof -
    from lengauer_tarjan_exists [OF assms(1) r ne] obtain u where
      u: "lengauer_tarjan_dominator_tree g entry_node v = Some u" by blast
    from lengauer_tarjan_strict [OF u] lengauer_tarjan_Some(1) [OF u] u v
    show ?thesis by (simp add: idom strictly_dominates_def)
  qed
  moreover have "idom v = Some None"
    if "v \<in> set (vertices g)" and "\<not> reachable g entry_node v" for v
    using that by (simp add: idom lengauer_tarjan_None)
  ultimately show ?thesis by simp
qed

theorem dominator_tree_correct_witness:
  "(0::nat) \<in> set (vertices diamond) \<and>
   (\<exists>idom out'. dominator_tree lengauer_tarjan_dominator_tree (\<lambda>tag. False) diamond 0 (Map.empty, [])
        = (idom, out') \<and>
      dom idom = set (vertices diamond) \<and> idom 0 = Some None \<and> idom 3 = Some (Some 0))"
proof -
  have h: "(0::nat) \<in> set (vertices diamond)" by (simp add: diamond_def)
  obtain idom out' where
    r: "dominator_tree lengauer_tarjan_dominator_tree (\<lambda>tag. False) diamond 0 (Map.empty, [])
          = (idom, out')"
    by (cases "dominator_tree lengauer_tarjan_dominator_tree (\<lambda>tag. False) diamond 0 (Map.empty, [])")
  from diamond_dominator_tree_runs r have v: "idom 3 = Some (Some 0)" by simp
  from dominator_tree_correct [OF h r] h r v show ?thesis by simp
qed

section \<open>Totality\<close>

text \<open>
  C7: \<open>dominator_tree\<close> and \<open>dominance\<close> return on every graph, disconnected and cyclic
  ones included, when the library call yields the immediate dominators: each step
  \<open>runner = idom[runner]\<close> moves to a strict dominator, and the number of dominators of
  the runner decreases, so every walk reaches the null vertex, \<open>idom[n]\<close> or \<open>n\<close>. The
  model has no error value because the source has no failing operation.
\<close>

theorem dominance_total:
  "(\<exists>idom out'. dominator_tree lengauer_tarjan_dominator_tree crab_log g (entry g) (Map.empty, out)
       = (idom, out')) \<and>
   (\<exists>df' out'. dominance lengauer_tarjan_dominator_tree crab_log g (df, out) = Some (df', out'))"
proof
  show "\<exists>idom out'. dominator_tree lengauer_tarjan_dominator_tree crab_log g (entry g) (Map.empty, out)
       = (idom, out')"
    by (cases "dominator_tree lengauer_tarjan_dominator_tree crab_log g (entry g) (Map.empty, out)")
       simp
  show "\<exists>df' out'. dominance lengauer_tarjan_dominator_tree crab_log g (df, out) = Some (df', out')"
    unfolding dominance_impl
    by (rule impl_dominance_terminates [OF lengauer_tarjan_acyclic])
qed

lemma loop_graph_dominance_runs:
  "(case dominance lengauer_tarjan_dominator_tree (\<lambda>tag. False) loop_graph (Map.empty, []) of
      None \<Rightarrow> False
    | Some (df, out) \<Rightarrow> map df [0, 1, 2] = [None, None, Some [1]])"
  by code_simp

theorem dominance_total_witness:
  "(\<exists>df' out'. dominance lengauer_tarjan_dominator_tree (\<lambda>tag. False) loop_graph (Map.empty, [])
       = Some (df', out') \<and> map df' [0, 1, 2] = [None, None, Some [1]]) \<and>
   (\<exists>df' out'. dominance lengauer_tarjan_dominator_tree (\<lambda>tag. False) detached_graph (Map.empty, [])
       = Some (df', out'))"
proof -
  from dominance_total [of "\<lambda>tag. False" loop_graph "[]" Map.empty] obtain df' out' where
    r: "dominance lengauer_tarjan_dominator_tree (\<lambda>tag. False) loop_graph (Map.empty, [])
          = Some (df', out')" by blast
  with loop_graph_dominance_runs have "map df' [0, 1, 2] = [None, None, Some [1]]" by simp
  with r dominance_total [of "\<lambda>tag. False" detached_graph "[]" Map.empty] show ?thesis by simp
qed

section \<open>Self-loops\<close>

lemma rtrancl_insert_loop: "(insert (n, n) R)\<^sup>* = R\<^sup>*"
proof
  have "insert (n, n) R \<subseteq> R\<^sup>*" by auto
  then have "(insert (n, n) R)\<^sup>* \<subseteq> (R\<^sup>*)\<^sup>*" by (rule rtrancl_mono)
  then show "(insert (n, n) R)\<^sup>* \<subseteq> R\<^sup>*" by simp
  show "R\<^sup>* \<subseteq> (insert (n, n) R)\<^sup>*" by (rule rtrancl_mono) auto
qed

lemma avoiding_insert_loop:
  "(avoiding (insert (n, n) R) u)\<^sup>* = (avoiding R u)\<^sup>*"
proof (cases "n = u")
  case True
  then have "avoiding (insert (n, n) R) u = avoiding R u" by (auto simp: avoiding_def)
  then show ?thesis by simp
next
  case False
  then have "avoiding (insert (n, n) R) u = insert (n, n) (avoiding R u)"
    by (auto simp: avoiding_def)
  then show ?thesis by (simp add: rtrancl_insert_loop)
qed

lemma self_loop_dominates:
  "dominates (g\<lparr>edges := es1 @ (n, n) # es2\<rparr>) e u v = dominates (g\<lparr>edges := es1 @ es2\<rparr>) e u v"
proof -
  have "set (es1 @ (n, n) # es2) = insert (n, n) (set (es1 @ es2))" by auto
  then show ?thesis by (simp add: dominates_rtrancl avoiding_insert_loop)
qed

lemma self_loop_reachable:
  "reachable (g\<lparr>edges := es1 @ (n, n) # es2\<rparr>) e v = reachable (g\<lparr>edges := es1 @ es2\<rparr>) e v"
proof -
  have "set (es1 @ (n, n) # es2) = insert (n, n) (set (es1 @ es2))" by auto
  then show ?thesis by (simp add: reachable_rtrancl rtrancl_insert_loop)
qed

lemma self_loop_lengauer_tarjan:
  "lengauer_tarjan_dominator_tree (g\<lparr>edges := es1 @ (n, n) # es2\<rparr>) e =
   lengauer_tarjan_dominator_tree (g\<lparr>edges := es1 @ es2\<rparr>) e"
  by (rule ext)
     (simp add: lengauer_tarjan_dominator_tree_def immediate_dominator_def
        strictly_dominates_def self_loop_dominates self_loop_reachable)

lemma in_edges_loop_append:
  "in_edges_loop idom n (as @ bs) df =
     (case in_edges_loop idom n as df of None \<Rightarrow> None | Some d \<Rightarrow> in_edges_loop idom n bs d)"
  by (induction as arbitrary: df) (simp_all split: option.splits)

lemma in_edges_loop_self:
  "in_edges_loop idom n ((n, n) # bs) df = in_edges_loop idom n bs df"
  by (simp add: source_def runner_walk_stop)

lemma self_loop_in_edges_loop:
  "in_edges_loop idom x (in_edges x (g\<lparr>edges := es1 @ (n, n) # es2\<rparr>)) df =
   in_edges_loop idom x (in_edges x (g\<lparr>edges := es1 @ es2\<rparr>)) df"
proof (cases "x = n")
  case True
  then show ?thesis
    by (simp add: in_edges_def target_def in_edges_loop_append source_def runner_walk_stop
        split: option.splits)
next
  case False
  then show ?thesis by (auto simp: in_edges_def target_def)
qed

lemma self_loop_vertices_loop:
  "vertices_loop idom (g\<lparr>edges := es1 @ (n, n) # es2\<rparr>) ns df =
   vertices_loop idom (g\<lparr>edges := es1 @ es2\<rparr>) ns df"
  by (induction ns arbitrary: df) (simp_all add: self_loop_in_edges_loop split: option.splits)

lemma self_loop_dominator_tree:
  "dominator_tree lengauer_tarjan_dominator_tree crab_log (g\<lparr>edges := es1 @ (n, n) # es2\<rparr>) e st =
   dominator_tree lengauer_tarjan_dominator_tree crab_log (g\<lparr>edges := es1 @ es2\<rparr>) e st"
  by (simp add: dominator_tree_def self_loop_lengauer_tarjan)

text \<open>
  C6: the walk for a self-loop edge \<open>n\<rightarrow>n\<close> returns the frontier map as it is, for any
  \<open>idom\<close>; and a graph with the self-loop (anywhere in its edge list) has the same
  dominator map, the same frontiers and the same diagnostics as the graph without it.
  The library call is the modelled one.
\<close>

theorem self_loop_contributes_nothing:
  "runner_walk idom n (Some (source (n, n))) df = Some df \<and>
   dominator_tree lengauer_tarjan_dominator_tree crab_log (g\<lparr>edges := es1 @ (n, n) # es2\<rparr>) e ist =
     dominator_tree lengauer_tarjan_dominator_tree crab_log (g\<lparr>edges := es1 @ es2\<rparr>) e ist \<and>
   impl_dominance lengauer_tarjan_dominator_tree crab_log (g\<lparr>edges := es1 @ (n, n) # es2\<rparr>) e st =
     impl_dominance lengauer_tarjan_dominator_tree crab_log (g\<lparr>edges := es1 @ es2\<rparr>) e st"
proof (intro conjI)
  show "runner_walk idom n (Some (source (n, n))) df = Some df"
    by (simp add: source_def runner_walk_stop)
  show "dominator_tree lengauer_tarjan_dominator_tree crab_log (g\<lparr>edges := es1 @ (n, n) # es2\<rparr>) e ist =
     dominator_tree lengauer_tarjan_dominator_tree crab_log (g\<lparr>edges := es1 @ es2\<rparr>) e ist"
    by (rule self_loop_dominator_tree)
  show "impl_dominance lengauer_tarjan_dominator_tree crab_log (g\<lparr>edges := es1 @ (n, n) # es2\<rparr>) e st =
     impl_dominance lengauer_tarjan_dominator_tree crab_log (g\<lparr>edges := es1 @ es2\<rparr>) e st"
    by (cases st) (simp add: impl_dominance_result self_loop_dominator_tree self_loop_vertices_loop)
qed

lemma self_loop_example_runs:
  "(case impl_dominance lengauer_tarjan_dominator_tree (\<lambda>tag. False)
           (loop_graph\<lparr>edges := [(0, 1)] @ (1, 1) # [(1, 2), (2, 1)]\<rparr>) 0 (Map.empty, []) of
      None \<Rightarrow> False
    | Some (df, out) \<Rightarrow> map df [0, 1, 2] = [None, None, Some [1]])"
  by code_simp

theorem self_loop_contributes_nothing_witness:
  "impl_dominance lengauer_tarjan_dominator_tree (\<lambda>tag. False)
      (loop_graph\<lparr>edges := [(0, 1)] @ (1, 1) # [(1, 2), (2, 1)]\<rparr>) 0 (Map.empty, []) =
   impl_dominance lengauer_tarjan_dominator_tree (\<lambda>tag. False)
      (loop_graph\<lparr>edges := [(0, 1)] @ [(1, 2), (2, 1)]\<rparr>) 0 (Map.empty, []) \<and>
   (\<exists>df' out'. impl_dominance lengauer_tarjan_dominator_tree (\<lambda>tag. False)
      (loop_graph\<lparr>edges := [(0, 1)] @ [(1, 2), (2, 1)]\<rparr>) 0 (Map.empty, []) = Some (df', out') \<and>
      map df' [0, 1, 2] = [None, None, Some [1]])"
proof -
  have e: "impl_dominance lengauer_tarjan_dominator_tree (\<lambda>tag. False)
      (loop_graph\<lparr>edges := [(0, 1)] @ (1, 1) # [(1, 2), (2, 1)]\<rparr>) 0 (Map.empty, []) =
   impl_dominance lengauer_tarjan_dominator_tree (\<lambda>tag. False)
      (loop_graph\<lparr>edges := [(0, 1)] @ [(1, 2), (2, 1)]\<rparr>) 0 (Map.empty, [])"
    using self_loop_contributes_nothing
      [where idom = Map.empty and n = 1 and df = Map.empty and crab_log = "\<lambda>tag. False"
         and g = loop_graph and ?es1.0 = "[(0, 1)]" and ?es2.0 = "[(1, 2), (2, 1)]" and e = 0
         and ist = "(Map.empty, [])" and st = "(Map.empty, [])"]
    by simp
  from self_loop_example_runs show ?thesis
    unfolding e
    by (cases "impl_dominance lengauer_tarjan_dominator_tree (\<lambda>tag. False)
      (loop_graph\<lparr>edges := [(0, 1)] @ [(1, 2), (2, 1)]\<rparr>) 0 (Map.empty, [])") auto
qed

section \<open>Determinism\<close>

text \<open>The maps computed do not depend on the diagnostics.\<close>

lemma dominator_tree_loop_log_free:
  "fst (dominator_tree_loop pm log1 vs (idom, out1)) =
   fst (dominator_tree_loop pm log2 vs (idom, out2))"
  by (rule ext) (simp add: dominator_tree_loop_idom)

lemma dominator_tree_log_free:
  "fst (dominator_tree lt log1 g e (idom, out1)) = fst (dominator_tree lt log2 g e (idom, out2))"
  by (simp add: dominator_tree_def dominator_tree_loop_log_free [of _ log1 _ _ out1 log2 out2])

lemma impl_dominance_log_free:
  "map_option fst (impl_dominance lt log1 g e (df, out1)) =
   map_option fst (impl_dominance lt log2 g e (df, out2))"
  using dominator_tree_log_free [of lt log1 g e Map.empty out1 log2 out2]
  by (simp add: impl_dominance_result option.map_comp comp_def)

text \<open>
  C8: the operations are functions of their arguments, so two calls on the same graph,
  entry and output map agree by construction as far as the arguments go; the only other
  state is the diagnostics (which tags are enabled, what has been written so far), and
  neither the dominator map nor the frontier map depends on it.
\<close>

theorem dominance_deterministic:
  "fst (dominator_tree lt log1 g e (idom, out1)) = fst (dominator_tree lt log2 g e (idom, out2)) \<and>
   map_option fst (dominance lt log1 g (df, out1)) = map_option fst (dominance lt log2 g (df, out2))"
  by (simp add: dominator_tree_log_free [of lt log1 g e idom out1 log2 out2] dominance_impl
      impl_dominance_log_free [of lt log1 g "entry g" df _ log2])

theorem dominance_deterministic_witness:
  "fst (dominator_tree lengauer_tarjan_dominator_tree (\<lambda>tag. True) diamond 0 (Map.empty, [Banner ''x''])) =
     fst (dominator_tree lengauer_tarjan_dominator_tree (\<lambda>tag. False) diamond 0 (Map.empty, [])) \<and>
   map_option fst (dominance lengauer_tarjan_dominator_tree (\<lambda>tag. True) diamond (Map.empty, [Banner ''x''])) =
     map_option fst (dominance lengauer_tarjan_dominator_tree (\<lambda>tag. False) diamond (Map.empty, []))"
  by (rule dominance_deterministic)

section \<open>Post-dominance\<close>

lemma cfg_rev_entry: "exit g = Some x \<Longrightarrow> entry (cfg_rev g) = x"
  by (simp add: cfg_rev_def)

lemma diamond_post_dominance_runs:
  "(case post_dominance lengauer_tarjan_dominator_tree (\<lambda>tag. False) diamond (Map.empty, []) of
      None \<Rightarrow> False
    | Some (df, out) \<Rightarrow> map df [0, 1, 2, 3] = [None, Some [0], Some [0], None])"
  by code_simp

text \<open>
  C3: when the graph has an exit, \<open>post_dominance\<close> yields the frontier map that
  \<open>dominance\<close> yields on the reversed view, which has the vertices of the graph, its
  edges turned around and its exit as entry. On the diamond the dominator map computed
  on the reversed view sends \<open>A\<close>, \<open>B\<close> and \<open>C\<close> (0, 1 and 2) to \<open>D\<close> (3). The reversed
  view and the library call are the modelled ones.
\<close>

theorem post_dominance_reversed:
  "(has_exit g \<longrightarrow>
      map_option fst (post_dominance lt crab_log g (rdf, out)) =
        map_option fst (dominance lt crab_log (cfg_rev g) (rdf, out)) \<and>
      vertices (cfg_rev g) = vertices g \<and>
      set (edges (cfg_rev g)) = (set (edges g))\<inverse> \<and>
      Some (entry (cfg_rev g)) = exit g) \<and>
   (case dominator_tree lengauer_tarjan_dominator_tree (\<lambda>tag. False) (cfg_rev diamond)
           (entry (cfg_rev diamond)) (Map.empty, []) of
      (idom, out) \<Rightarrow> map idom [0, 1, 2] = [Some (Some 3), Some (Some 3), Some (Some 3)])"
proof (intro conjI impI)
  assume h: "has_exit g"
  then obtain x where x: "exit g = Some x" by (auto simp: has_exit_def)
  show "map_option fst (post_dominance lt crab_log g (rdf, out)) =
        map_option fst (dominance lt crab_log (cfg_rev g) (rdf, out))"
    using h impl_dominance_log_free [of lt crab_log "cfg_rev g" "entry (cfg_rev g)" rdf _ crab_log]
    by (simp add: post_dominance_def dominance_impl Let_def)
  show "vertices (cfg_rev g) = vertices g" by (simp add: cfg_rev_def)
  show "set (edges (cfg_rev g)) = (set (edges g))\<inverse>" by (force simp: cfg_rev_def)
  show "Some (entry (cfg_rev g)) = exit g" using x by (simp add: cfg_rev_def)
next
  show "case dominator_tree lengauer_tarjan_dominator_tree (\<lambda>tag. False) (cfg_rev diamond)
           (entry (cfg_rev diamond)) (Map.empty, []) of
      (idom, out) \<Rightarrow> map idom [0, 1, 2] = [Some (Some 3), Some (Some 3), Some (Some 3)]"
    by code_simp
qed

theorem post_dominance_reversed_witness:
  "has_exit diamond \<and>
   (\<exists>df' out'. post_dominance lengauer_tarjan_dominator_tree (\<lambda>tag. False) diamond (Map.empty, [])
       = Some (df', out') \<and> map df' [0, 1, 2, 3] = [None, Some [0], Some [0], None]) \<and>
   map_option fst (post_dominance lengauer_tarjan_dominator_tree (\<lambda>tag. False) diamond (Map.empty, [])) =
     map_option fst (dominance lengauer_tarjan_dominator_tree (\<lambda>tag. False) (cfg_rev diamond)
        (Map.empty, []))"
proof -
  have h: "has_exit diamond" by (simp add: has_exit_def diamond_def)
  from diamond_post_dominance_runs have
    "\<exists>df' out'. post_dominance lengauer_tarjan_dominator_tree (\<lambda>tag. False) diamond (Map.empty, [])
       = Some (df', out') \<and> map df' [0, 1, 2, 3] = [None, Some [0], Some [0], None]"
    by (cases "post_dominance lengauer_tarjan_dominator_tree (\<lambda>tag. False) diamond (Map.empty, [])")
       auto
  with h post_dominance_reversed [of diamond lengauer_tarjan_dominator_tree "\<lambda>tag. False" Map.empty "[]"]
  show ?thesis by simp
qed

section \<open>The frontier in terms of dominance\<close>

lemma push_frontier_member:
  "x \<in> set (df_at (push_frontier df r n) k) \<longleftrightarrow> x \<in> set (df_at df k) \<or> (x = n \<and> k = r)"
  by (auto simp: push_frontier_def df_at_def Let_def split: option.splits)

lemma reachable_vertex:
  assumes "wf_graph g" and "e \<in> set (vertices g)" and "reachable g e v"
  shows "v \<in> set (vertices g)"
proof -
  from assms(3) have "(e, v) \<in> (set (edges g))\<^sup>*" by (simp add: reachable_rtrancl)
  then show ?thesis
  proof (cases rule: rtranclE)
    case base
    with assms(2) show ?thesis by simp
  next
    case (step y)
    with assms(1) show ?thesis by (auto simp: wf_graph_def target_def)
  qed
qed

text \<open>
  The walk from a reachable runner \<open>r\<close>, when the immediate dominator of \<open>m\<close> (if it has
  one) dominates \<open>r\<close>: it ends, and it adds \<open>m\<close> to the frontier of exactly the
  dominators of \<open>r\<close> that do not dominate \<open>m\<close>.
\<close>

lemma runner_walk_reachable:
  fixes g :: "'a graph"
  assumes wf: "wf_graph g" and ev: "e \<in> set (vertices g)"
    and idom: "idom = fst (dominator_tree lengauer_tarjan_dominator_tree crab_log g e (Map.empty, out))"
    and mv: "m \<in> set (vertices g)"
  shows "reachable g e r \<Longrightarrow>
         m = e \<or> (\<exists>u. lengauer_tarjan_dominator_tree g e m = Some u \<and> dominates g e u r) \<Longrightarrow>
         \<exists>df'. runner_walk idom m (Some r) df = Some df' \<and>
           (\<forall>k x. x \<in> set (df_at df' k) \<longleftrightarrow>
              x \<in> set (df_at df k) \<or> (x = m \<and> dominates g e k r \<and> \<not> dominates g e k m))"
proof (induction "dom_count g e r" arbitrary: r df rule: less_induct)
  case less
  have at: "idom_at idom v = (if v \<in> set (vertices g) then lengauer_tarjan_dominator_tree g e v else None)" for v
    by (simp add: idom dominator_tree_map_at)
  from reachable_vertex [OF wf ev less.prems(1)] have rv: "r \<in> set (vertices g)" .
  show ?case
  proof (cases "Some r = idom_at idom m \<or> r = m")
    case True
    have nd: "\<not> (dominates g e k r \<and> \<not> dominates g e k m)" for k
    proof (cases "r = m")
      case True
      then show ?thesis by simp
    next
      case False
      with True mv have "lengauer_tarjan_dominator_tree g e m = Some r" by (simp add: at)
      from lengauer_tarjan_strict [OF this] have rm: "dominates g e r m"
        by (simp add: strictly_dominates_def)
      show ?thesis
      proof
        assume "dominates g e k r \<and> \<not> dominates g e k m"
        then have "dominates g e k r" and n: "\<not> dominates g e k m" by simp_all
        from dominates_trans [OF this(1) rm] n show False by simp
      qed
    qed
    have "x \<in> set (df_at df k) \<longleftrightarrow>
            x \<in> set (df_at df k) \<or> (x = m \<and> dominates g e k r \<and> \<not> dominates g e k m)" for k x
      using nd [of k] by blast
    moreover have "runner_walk idom m (Some r) df = Some df"
      using True by (rule runner_walk_stop)
    ultimately show ?thesis by simp
  next
    case False
    have re: "r \<noteq> e"
    proof
      assume "r = e"
      with False have "m \<noteq> e" by auto
      with less.prems(2) obtain u where
        u: "lengauer_tarjan_dominator_tree g e m = Some u" and "dominates g e u r" by blast
      with \<open>r = e\<close> have "u = e" by (simp add: dominates_entry_iff)
      with u mv \<open>r = e\<close> have "Some r = idom_at idom m" by (simp add: at)
      with False show False by simp
    qed
    from lengauer_tarjan_exists [OF ev less.prems(1) re] obtain r' where
      r': "lengauer_tarjan_dominator_tree g e r = Some r'" by blast
    from lengauer_tarjan_strict [OF r'] have r'r: "dominates g e r' r" and "r' \<noteq> r"
      by (simp_all add: strictly_dominates_def)
    from dominates_reachable [OF r'r less.prems(1)] have reach': "reachable g e r'" .
    from lengauer_tarjan_count [OF r' rv] have less': "dom_count g e r' < dom_count g e r" .
    have nrm: "\<not> dominates g e r m"
    proof
      assume d: "dominates g e r m"
      from False have "r \<noteq> m" by simp
      with d have s: "strictly_dominates g e r m" by (simp add: strictly_dominates_def)
      have "m \<noteq> e" using d \<open>r \<noteq> m\<close> by (auto simp: dominates_entry_iff)
      with less.prems(2) obtain u where
        u: "lengauer_tarjan_dominator_tree g e m = Some u" and ur: "dominates g e u r" by blast
      from lengauer_tarjan_closest [OF u rv s] have "dominates g e r u" .
      from dominates_antisym [OF this ur less.prems(1)] have "r = u" .
      with u mv have "Some r = idom_at idom m" by (simp add: at)
      with False show False by simp
    qed
    have inv': "m = e \<or> (\<exists>u. lengauer_tarjan_dominator_tree g e m = Some u \<and> dominates g e u r')"
    proof (cases "m = e")
      case True
      then show ?thesis by simp
    next
      case me: False
      with less.prems(2) obtain u where
        u: "lengauer_tarjan_dominator_tree g e m = Some u" and ur: "dominates g e u r" by blast
      have "u \<noteq> r" using u mv False by (auto simp: at)
      with ur have "strictly_dominates g e u r" by (simp add: strictly_dominates_def)
      from lengauer_tarjan_closest [OF r' lengauer_tarjan_Some(1) [OF u] this] u
      show ?thesis by blast
    qed
    from less.hyps [OF less' reach' inv', of "push_frontier df r m"] obtain df' where
      w: "runner_walk idom m (Some r') (push_frontier df r m) = Some df'" and
      mem: "\<And>k x. x \<in> set (df_at df' k) \<longleftrightarrow>
              x \<in> set (df_at (push_frontier df r m) k) \<or>
              (x = m \<and> dominates g e k r' \<and> \<not> dominates g e k m)"
      by blast
    have step: "runner_walk idom m (Some r) df = Some df'"
      using False w r' rv by (simp add: runner_walk_step at)
    have chain: "(k = r \<or> (dominates g e k r' \<and> \<not> dominates g e k m)) \<longleftrightarrow>
                 (dominates g e k r \<and> \<not> dominates g e k m)" for k
    proof
      assume "k = r \<or> (dominates g e k r' \<and> \<not> dominates g e k m)"
      then show "dominates g e k r \<and> \<not> dominates g e k m"
      proof
        assume "k = r"
        with nrm show ?thesis by (simp add: dominates_refl)
      next
        assume b: "dominates g e k r' \<and> \<not> dominates g e k m"
        then have "dominates g e k r'" by simp
        from dominates_trans [OF this r'r] b show ?thesis by simp
      qed
    next
      assume a: "dominates g e k r \<and> \<not> dominates g e k m"
      then have kr: "dominates g e k r" by simp
      from dominates_reachable [OF kr less.prems(1)] have "reachable g e k" .
      from reachable_vertex [OF wf ev this] have "k \<in> set (vertices g)" .
      from lengauer_tarjan_dominators [OF r' this] a
      show "k = r \<or> (dominates g e k r' \<and> \<not> dominates g e k m)" by simp
    qed
    have "x \<in> set (df_at df' k) \<longleftrightarrow>
              x \<in> set (df_at df k) \<or> (x = m \<and> dominates g e k r \<and> \<not> dominates g e k m)" for k x
      unfolding mem [of x k] push_frontier_member [of x df r m k] using chain [of k] by blast
    with step show ?thesis by simp
  qed
qed

lemma runner_walk_edge:
  fixes g :: "'a graph"
  assumes wf: "wf_graph g" and ev: "e \<in> set (vertices g)"
    and idom: "idom = fst (dominator_tree lengauer_tarjan_dominator_tree crab_log g e (Map.empty, out))"
    and pm: "(p, m) \<in> set (edges g)"
  shows "\<exists>df'. runner_walk idom m (Some p) df = Some df' \<and>
           (\<forall>k x. x \<in> set (df_at df' k) \<longleftrightarrow>
              x \<in> set (df_at df k) \<or> (x = m \<and> frontier_edge g e p m k))"
proof -
  have at: "idom_at idom v = (if v \<in> set (vertices g) then lengauer_tarjan_dominator_tree g e v else None)" for v
    by (simp add: idom dominator_tree_map_at)
  from wf pm have pv: "p \<in> set (vertices g)" and mv: "m \<in> set (vertices g)"
    by (auto simp: wf_graph_def source_def target_def)
  show ?thesis
  proof (cases "reachable g e p")
    case True
    have inv: "m = e \<or> (\<exists>u. lengauer_tarjan_dominator_tree g e m = Some u \<and> dominates g e u p)"
    proof (cases "m = e")
      case True
      then show ?thesis by simp
    next
      case False
      from reachable_step [OF True pm] have "reachable g e m" .
      from lengauer_tarjan_exists [OF ev this False] obtain u where
        u: "lengauer_tarjan_dominator_tree g e m = Some u" by blast
      from lengauer_tarjan_strict [OF u] have "dominates g e u m" and "u \<noteq> m"
        by (simp_all add: strictly_dominates_def)
      from dominates_predecessor [OF pm this] u show ?thesis by blast
    qed
    from runner_walk_reachable [OF wf ev idom mv True inv, of df] True
    show ?thesis by (simp add: frontier_edge_def)
  next
    case False
    have nidom: "Some p \<noteq> idom_at idom m"
    proof
      assume "Some p = idom_at idom m"
      with mv have u: "lengauer_tarjan_dominator_tree g e m = Some p" by (simp add: at)
      from lengauer_tarjan_strict [OF u] have "dominates g e p m"
        by (simp add: strictly_dominates_def)
      from dominates_reachable [OF this lengauer_tarjan_Some(4) [OF u]] False show False by simp
    qed
    show ?thesis
    proof (cases "p = m")
      case True
      then have "runner_walk idom m (Some p) df = Some df" by (simp add: runner_walk_stop)
      moreover have "\<not> frontier_edge g e p m k" for k
        using False True by (simp add: frontier_edge_def)
      ultimately show ?thesis by simp
    next
      case pm': False
      have "idom_at idom p = None" using False by (simp add: at lengauer_tarjan_None)
      with nidom pm' have "runner_walk idom m (Some p) df = Some (push_frontier df p m)"
        by (simp add: runner_walk_step runner_walk_None)
      moreover have "frontier_edge g e p m k \<longleftrightarrow> k = p" for k
        using False pm' by (simp add: frontier_edge_def)
      ultimately show ?thesis by (simp add: push_frontier_member)
    qed
  qed
qed

lemma in_edges_loop_frontier:
  fixes g :: "'a graph"
  assumes wf: "wf_graph g" and ev: "e \<in> set (vertices g)"
    and idom: "idom = fst (dominator_tree lengauer_tarjan_dominator_tree crab_log g e (Map.empty, out))"
  shows "\<forall>ed \<in> set es. ed \<in> set (edges g) \<and> target ed = m \<Longrightarrow>
         \<exists>df'. in_edges_loop idom m es df = Some df' \<and>
           (\<forall>k x. x \<in> set (df_at df' k) \<longleftrightarrow>
              x \<in> set (df_at df k) \<or>
              (x = m \<and> (\<exists>ed \<in> set es. frontier_edge g e (source ed) m k)))"
proof (induction es arbitrary: df)
  case Nil
  show ?case by simp
next
  case (Cons a es)
  from Cons.prems have "(source a, m) \<in> set (edges g)"
    by (cases a) (auto simp: source_def target_def)
  from runner_walk_edge [OF wf ev idom this, of df] obtain d1 where
    w: "runner_walk idom m (Some (source a)) df = Some d1" and
    m1: "\<And>k x. x \<in> set (df_at d1 k) \<longleftrightarrow>
            x \<in> set (df_at df k) \<or> (x = m \<and> frontier_edge g e (source a) m k)"
    by blast
  from Cons.prems have "\<forall>ed \<in> set es. ed \<in> set (edges g) \<and> target ed = m" by simp
  from Cons.IH [OF this, of d1] obtain df' where
    l: "in_edges_loop idom m es d1 = Some df'" and
    m2: "\<And>k x. x \<in> set (df_at df' k) \<longleftrightarrow>
            x \<in> set (df_at d1 k) \<or>
            (x = m \<and> (\<exists>ed \<in> set es. frontier_edge g e (source ed) m k))"
    by blast
  have "in_edges_loop idom m (a # es) df = Some df'" using w l by simp
  moreover have "x \<in> set (df_at df' k) \<longleftrightarrow>
            x \<in> set (df_at df k) \<or>
            (x = m \<and> (\<exists>ed \<in> set (a # es). frontier_edge g e (source ed) m k))" for k x
    unfolding m2 [of x k] m1 [of x k] by auto
  ultimately show ?case by simp
qed

lemma vertices_loop_frontier:
  fixes g :: "'a graph"
  assumes wf: "wf_graph g" and ev: "e \<in> set (vertices g)"
    and idom: "idom = fst (dominator_tree lengauer_tarjan_dominator_tree crab_log g e (Map.empty, out))"
  shows "\<exists>df'. vertices_loop idom g ns df = Some df' \<and>
           (\<forall>k x. x \<in> set (df_at df' k) \<longleftrightarrow>
              x \<in> set (df_at df k) \<or>
              (x \<in> set ns \<and> (\<exists>p. (p, x) \<in> set (edges g) \<and> frontier_edge g e p x k)))"
proof (induction ns arbitrary: df)
  case Nil
  show ?case by simp
next
  case (Cons n ns)
  have "\<forall>ed \<in> set (in_edges n g). ed \<in> set (edges g) \<and> target ed = n"
    by (simp add: in_edges_def)
  from in_edges_loop_frontier [OF wf ev idom this, of df] obtain d1 where
    w: "in_edges_loop idom n (in_edges n g) df = Some d1" and
    m1: "\<And>k x. x \<in> set (df_at d1 k) \<longleftrightarrow>
            x \<in> set (df_at df k) \<or>
            (x = n \<and> (\<exists>ed \<in> set (in_edges n g). frontier_edge g e (source ed) n k))"
    by blast
  have ex: "(\<exists>ed \<in> set (in_edges n g). frontier_edge g e (source ed) n k) \<longleftrightarrow>
            (\<exists>p. (p, n) \<in> set (edges g) \<and> frontier_edge g e p n k)" for k
    by (force simp: in_edges_def source_def target_def)
  from Cons.IH [of d1] obtain df' where
    l: "vertices_loop idom g ns d1 = Some df'" and
    m2: "\<And>k x. x \<in> set (df_at df' k) \<longleftrightarrow>
            x \<in> set (df_at d1 k) \<or>
            (x \<in> set ns \<and> (\<exists>p. (p, x) \<in> set (edges g) \<and> frontier_edge g e p x k))"
    by blast
  have "vertices_loop idom g (n # ns) df = Some df'" using w l by simp
  moreover have "x \<in> set (df_at df' k) \<longleftrightarrow>
            x \<in> set (df_at df k) \<or>
            (x \<in> set (n # ns) \<and> (\<exists>p. (p, x) \<in> set (edges g) \<and> frontier_edge g e p x k))" for k x
    unfolding m2 [of x k] m1 [of x k] ex [of k] by auto
  ultimately show ?case by simp
qed

lemma frontier_membership:
  assumes "wf_graph g" and "entry g \<in> set (vertices g)"
  shows "\<exists>df' out'.
           dominance lengauer_tarjan_dominator_tree crab_log g (Map.empty, out) = Some (df', out') \<and>
           (\<forall>k m. m \<in> set (df_at df' k) \<longleftrightarrow>
              (\<exists>p. (p, m) \<in> set (edges g) \<and> frontier_edge g (entry g) p m k))"
proof -
  let ?e = "entry g"
  let ?out = "emit crab_log ''dominance'' (Banner ''Dominance Frontiers\<newline>'') out"
  let ?idom = "fst (dominator_tree lengauer_tarjan_dominator_tree crab_log g ?e (Map.empty, ?out))"
  from vertices_loop_frontier [OF assms refl, of crab_log ?out "vertices g" Map.empty]
  obtain df' where
    l: "vertices_loop ?idom g (vertices g) Map.empty = Some df'" and
    mem: "\<And>k x. x \<in> set (df_at df' k) \<longleftrightarrow>
            x \<in> set (df_at Map.empty k) \<or>
            (x \<in> set (vertices g) \<and> (\<exists>p. (p, x) \<in> set (edges g) \<and> frontier_edge g ?e p x k))"
    by blast
  have "m \<in> set (df_at df' k) \<longleftrightarrow> (\<exists>p. (p, m) \<in> set (edges g) \<and> frontier_edge g ?e p m k)"
    for k m
    using assms(1) unfolding mem [of m k]
    by (auto simp: df_at_def wf_graph_def target_def)
  then have all: "\<forall>k m. m \<in> set (df_at df' k) \<longleftrightarrow>
              (\<exists>p. (p, m) \<in> set (edges g) \<and> frontier_edge g (entry g) p m k)"
    by simp
  from l have "dominance lengauer_tarjan_dominator_tree crab_log g (Map.empty, out) =
      Some (df', emit crab_log ''dominance'' (FrontierDump df')
         (snd (dominator_tree lengauer_tarjan_dominator_tree crab_log g ?e (Map.empty, ?out))))"
    by (simp add: dominance_impl impl_dominance_result)
  with all show ?thesis by (intro exI conjI)
qed

lemma frontier_edge_reachable:
  assumes "reachable g e k" and "k \<noteq> m"
  shows "frontier_edge g e p m k \<longleftrightarrow>
           reachable g e p \<and> dominates g e k p \<and> \<not> strictly_dominates g e k m"
  using assms by (auto simp: frontier_edge_def strictly_dominates_def)

lemma frontier_edge_unreachable:
  assumes "\<not> reachable g e k" and "k \<noteq> m"
  shows "frontier_edge g e p m k \<longleftrightarrow> p = k"
proof (cases "reachable g e p")
  case True
  have "\<not> dominates g e k p"
  proof
    assume "dominates g e k p"
    from dominates_reachable [OF this True] assms(1) show False by simp
  qed
  with True assms(1) show ?thesis by (auto simp: frontier_edge_def)
next
  case False
  with assms(2) show ?thesis by (auto simp: frontier_edge_def)
qed

lemma detached_graph_dominance_runs:
  "(case dominance lengauer_tarjan_dominator_tree (\<lambda>tag. False) detached_graph (Map.empty, []) of
      None \<Rightarrow> False
    | Some (df, out) \<Rightarrow> map df [0, 1, 2, 3] = [None, None, Some [1], None])"
  by code_simp

lemma detached_graph_dominates:
  "\<not> dominates detached_graph (entry detached_graph) 3 1 \<and>
   dominates detached_graph (entry detached_graph) 3 2"
  by code_simp

text \<open>
  C1 as stated fails: in the graph \<open>0\<rightarrow>1, 2\<rightarrow>1, 0\<rightarrow>3\<close> with entry 0, node 3 does not
  strictly dominate node 1 and dominates the predecessor 2 of node 1 (no path from the
  entry reaches 2, so every path to 2 passes through 3), but 1 is not in the frontier
  of 3: \<open>idom[2]\<close> is the null vertex, as for every node that cannot be reached, so the
  walk from 2 ends after its first step.
\<close>

theorem frontier_definition_counterexample:
  "dominance lengauer_tarjan_dominator_tree (\<lambda>tag. False) detached_graph (Map.empty, []) \<noteq> None \<and>
   1 \<notin> set (df_at (fst (the (dominance lengauer_tarjan_dominator_tree (\<lambda>tag. False) detached_graph
                                 (Map.empty, [])))) 3) \<and>
   \<not> strictly_dominates detached_graph (entry detached_graph) 3 1 \<and>
   (2, 1) \<in> set (edges detached_graph) \<and>
   dominates detached_graph (entry detached_graph) 3 2"
proof -
  from detached_graph_dominance_runs obtain df2 out2 where
    r2: "dominance lengauer_tarjan_dominator_tree (\<lambda>tag. False) detached_graph (Map.empty, [])
          = Some (df2, out2)" and v2: "df2 3 = None"
    by (cases "dominance lengauer_tarjan_dominator_tree (\<lambda>tag. False) detached_graph (Map.empty, [])")
       auto
  have "(2, 1) \<in> set (edges detached_graph)" by (simp add: detached_graph_def)
  with r2 v2 detached_graph_dominates show ?thesis
    by (simp add: df_at_def strictly_dominates_def)
qed

text \<open>
  C1, amended: on a graph whose edges join vertices and whose entry is a vertex,
  \<open>dominance\<close>, called with an empty map, completes, and for all nodes \<open>m\<close> and \<open>k\<close>
  with \<open>m \<noteq> k\<close>: if \<open>k\<close> can be reached from the entry, \<open>m\<close> is in the frontier of \<open>k\<close>
  if and only if \<open>k\<close> does not strictly dominate \<open>m\<close> and \<open>k\<close> dominates some
  predecessor of \<open>m\<close> that can be reached from the entry; if \<open>k\<close> cannot be reached from
  the entry, \<open>m\<close> is in the frontier of \<open>k\<close> if and only if there is an edge from \<open>k\<close>
  to \<open>m\<close>. Nothing is said about a node and its own frontier. By
  \<open>dominates_iff_every_path\<close>, \<open>u\<close> dominates \<open>v\<close> if and only if every path from the
  entry to \<open>v\<close> passes through \<open>u\<close>. The library call is the modelled one.
\<close>

theorem frontier_definition:
  assumes "wf_graph g" and "entry g \<in> set (vertices g)"
  shows "\<exists>df' out'.
           dominance lengauer_tarjan_dominator_tree crab_log g (Map.empty, out) = Some (df', out') \<and>
           (\<forall>k m. k \<noteq> m \<longrightarrow>
              (reachable g (entry g) k \<longrightarrow>
                 (m \<in> set (df_at df' k) \<longleftrightarrow>
                    \<not> strictly_dominates g (entry g) k m \<and>
                    (\<exists>p. (p, m) \<in> set (edges g) \<and> reachable g (entry g) p \<and>
                         dominates g (entry g) k p))) \<and>
              (\<not> reachable g (entry g) k \<longrightarrow>
                 (m \<in> set (df_at df' k) \<longleftrightarrow> (k, m) \<in> set (edges g))))"
proof -
  from frontier_membership [OF assms, of crab_log out] obtain df' out' where
    r: "dominance lengauer_tarjan_dominator_tree crab_log g (Map.empty, out) = Some (df', out')" and
    mem: "\<forall>k m. m \<in> set (df_at df' k) \<longleftrightarrow>
              (\<exists>p. (p, m) \<in> set (edges g) \<and> frontier_edge g (entry g) p m k)"
    by (elim exE conjE)
  have r1: "m \<in> set (df_at df' k) \<longleftrightarrow>
              \<not> strictly_dominates g (entry g) k m \<and>
              (\<exists>p. (p, m) \<in> set (edges g) \<and> reachable g (entry g) p \<and> dominates g (entry g) k p)"
    if "k \<noteq> m" and "reachable g (entry g) k" for k m
    using mem frontier_edge_reachable [OF that(2,1)] by auto
  have r2: "m \<in> set (df_at df' k) \<longleftrightarrow> (k, m) \<in> set (edges g)"
    if "k \<noteq> m" and "\<not> reachable g (entry g) k" for k m
    using mem frontier_edge_unreachable [OF that(2,1)] by auto
  have all: "\<forall>k m. k \<noteq> m \<longrightarrow>
              (reachable g (entry g) k \<longrightarrow>
                 (m \<in> set (df_at df' k) \<longleftrightarrow>
                    \<not> strictly_dominates g (entry g) k m \<and>
                    (\<exists>p. (p, m) \<in> set (edges g) \<and> reachable g (entry g) p \<and>
                         dominates g (entry g) k p))) \<and>
              (\<not> reachable g (entry g) k \<longrightarrow>
                 (m \<in> set (df_at df' k) \<longleftrightarrow> (k, m) \<in> set (edges g)))"
    by (intro allI conjI impI) (erule (1) r1, erule (1) r2)
  with r show ?thesis by (intro exI conjI)
qed

theorem frontier_definition_witness:
  "wf_graph diamond \<and> entry diamond \<in> set (vertices diamond) \<and>
   (1::nat) \<noteq> 3 \<and> reachable diamond (entry diamond) 1 \<and>
   (\<exists>df' out'. dominance lengauer_tarjan_dominator_tree (\<lambda>tag. False) diamond (Map.empty, [])
        = Some (df', out') \<and>
      df' 1 = Some [3] \<and>
      (3 \<in> set (df_at df' 1) \<longleftrightarrow>
         \<not> strictly_dominates diamond (entry diamond) 1 3 \<and>
         (\<exists>p. (p, 3) \<in> set (edges diamond) \<and> reachable diamond (entry diamond) p \<and>
              dominates diamond (entry diamond) 1 p)))"
proof -
  have w: "wf_graph diamond" by (simp add: wf_graph_def diamond_def source_def target_def)
  have v: "entry diamond \<in> set (vertices diamond)" by (simp add: diamond_def)
  have n: "(1::nat) \<noteq> 3" by simp
  have k: "reachable diamond (entry diamond) 1" by code_simp
  from frontier_definition [OF w v, of "\<lambda>tag. False" "[]"] obtain df' out' where
    r: "dominance lengauer_tarjan_dominator_tree (\<lambda>tag. False) diamond (Map.empty, [])
          = Some (df', out')" and
    c: "\<forall>k m. k \<noteq> m \<longrightarrow>
          (reachable diamond (entry diamond) k \<longrightarrow>
             (m \<in> set (df_at df' k) \<longleftrightarrow>
                \<not> strictly_dominates diamond (entry diamond) k m \<and>
                (\<exists>p. (p, m) \<in> set (edges diamond) \<and> reachable diamond (entry diamond) p \<and>
                     dominates diamond (entry diamond) k p))) \<and>
          (\<not> reachable diamond (entry diamond) k \<longrightarrow>
             (m \<in> set (df_at df' k) \<longleftrightarrow> (k, m) \<in> set (edges diamond)))"
    by (elim exE conjE)
  from diamond_dominance_runs r have d: "df' 1 = Some [3]" by simp
  from c n k have i: "3 \<in> set (df_at df' 1) \<longleftrightarrow>
                \<not> strictly_dominates diamond (entry diamond) 1 3 \<and>
                (\<exists>p. (p, 3) \<in> set (edges diamond) \<and> reachable diamond (entry diamond) p \<and>
                     dominates diamond (entry diamond) 1 p)"
    by simp
  from w v n k r d i show ?thesis by (intro conjI exI)
qed

end
